theory Spec2Isabelle
  imports Main
begin

section \<open>The configuration file parser of \<^verbatim>\<open>cpp_parse_config.hpp\<close>\<close>

text \<open>
  The header holds one function, \<^verbatim>\<open>parse_config\<close>: a scanner that reads a file one
  character at a time and fills an \<^verbatim>\<open>unordered_map\<close> of strings. The embedding follows
  the source line by line: the local variables of the function are a record, one
  iteration of the \<^verbatim>\<open>while\<close> loop is the function \<open>step\<close>, the loop is \<open>loop\<close>,
  and every \<^verbatim>\<open>return\<close> and the \<^verbatim>\<open>break\<close> of the source is a constructor of
  \<open>outcome\<close>. The messages written to \<^verbatim>\<open>std::cerr\<close> and the closing of the stream are
  left out; the line counter, which only the messages read, is kept.
\<close>

subsection \<open>Constants of the header\<close>

definition CONFERR_NORET :: int where
  "CONFERR_NORET = - 1"

definition CONFERR_ERRFILE :: int where
  "CONFERR_ERRFILE = - 2"

definition CONFERR_WRONGSYNTAX :: int where
  "CONFERR_WRONGSYNTAX = - 3"

definition CONFERR_WRONGPARAM :: int where
  "CONFERR_WRONGPARAM = - 4"

definition CONFERR_WRONGVALUE :: int where
  "CONFERR_WRONGVALUE = - 5"

text \<open>The two buffer sizes (the defaults of the \<^verbatim>\<open>#ifndef\<close> blocks).\<close>

definition CONF_PARAM_NAME_MAX_LEN :: nat where
  "CONF_PARAM_NAME_MAX_LEN = 30"

definition CONF_PARAM_VALUE_MAX_LEN :: nat where
  "CONF_PARAM_VALUE_MAX_LEN = 255"

subsection \<open>Characters\<close>

text \<open>
  A \<^verbatim>\<open>char\<close> is a byte. Whether plain \<^verbatim>\<open>char\<close> is signed is the platform's choice,
  and the test \<^verbatim>\<open>c == EOF\<close> depends on it: both sides are promoted to \<^verbatim>\<open>int\<close>,
  and \<open>EOF\<close> is \<open>-1\<close>. The flag \<open>sg\<close> (char is signed) is a parameter of the model.
\<close>

abbreviation NUL :: char where
  "NUL \<equiv> CHR 0x00"

abbreviation NL :: char where
  "NL \<equiv> CHR 0x0A"

abbreviation SQUOTE :: char where
  "SQUOTE \<equiv> CHR 0x27"

abbreviation DQUOTE :: char where
  "DQUOTE \<equiv> CHR 0x22"

definition EOF :: int where
  "EOF = - 1"

definition char_to_int :: "bool \<Rightarrow> char \<Rightarrow> int" where
  "char_to_int sg c =
     (if sg \<and> 128 \<le> (of_char c :: nat) then int (of_char c) - 256 else int (of_char c))"

text \<open>
  The classification functions of \<^verbatim>\<open><cctype>\<close>, in the \<^verbatim>\<open>"C"\<close> locale (the program
  never sets another): letters are \<^verbatim>\<open>A-Z\<close> and \<^verbatim>\<open>a-z\<close>, digits \<^verbatim>\<open>0-9\<close>, white space
  is the blank and the bytes \<^verbatim>\<open>\t \n \v \f \r\<close> (9 to 13). A byte of 128 and more is in
  none of the classes, whether it is promoted to a negative number or not.
\<close>

definition isalpha :: "char \<Rightarrow> bool" where
  "isalpha c = (let n = (of_char c :: nat) in (65 \<le> n \<and> n \<le> 90) \<or> (97 \<le> n \<and> n \<le> 122))"

definition isdigit :: "char \<Rightarrow> bool" where
  "isdigit c = (let n = (of_char c :: nat) in 48 \<le> n \<and> n \<le> 57)"

definition isspace :: "char \<Rightarrow> bool" where
  "isspace c = (let n = (of_char c :: nat) in n = 32 \<or> (9 \<le> n \<and> n \<le> 13))"

subsection \<open>The destination map and the character buffers\<close>

type_synonym config_map = "string \<rightharpoonup> string"

text \<open>
  \<^verbatim>\<open>ret->insert(std::make_pair(param_name, param_value))\<close>: the two arrays decay to
  \<^verbatim>\<open>char*\<close>, and each \<^verbatim>\<open>std::string\<close> of the pair is built from the bytes before the
  first \<^verbatim>\<open>NUL\<close>. \<^verbatim>\<open>unordered_map::insert\<close> adds the pair only when the map has no
  element with that key.
\<close>

definition c_str :: "char list \<Rightarrow> string" where
  "c_str buf = takeWhile (\<lambda>c. c \<noteq> NUL) buf"

definition insert_pair :: "string \<Rightarrow> string \<Rightarrow> config_map \<Rightarrow> config_map" where
  "insert_pair k v m = (case m k of None \<Rightarrow> m(k \<mapsto> v) | Some old \<Rightarrow> m)"

subsection \<open>The local variables of \<^verbatim>\<open>parse_config\<close>\<close>

datatype parse_mode =
    parse_skip_space
  | parse_skip_comment_line
  | parse_param_name
  | parse_skip_space_before_equal
  | parse_skip_space_after_equal
  | parse_value
  | parse_line_end
  | parse_value_in_single_quote
  | parse_value_in_double_quote

text \<open>
  \<open>ret\<close> is the map that the pointer \<^verbatim>\<open>ret\<close> refers to. The two arrays are lists of
  the arrays' lengths; a write \<^verbatim>\<open>a[i] = c\<close> is \<open>a[i := c]\<close>, and the lemma
  \<open>reachable_bounds\<close> below shows that every index the scanner writes at is in range.
  The two fill counters and the line counter are \<^verbatim>\<open>int\<close> in the source: the fill
  counters stay below the array sizes, and the line counter is taken without
  wrap-around.
\<close>

record locals =
  param_name :: "char list"
  param_value :: "char list"
  name_fill :: nat
  value_fill :: nat
  line :: int
  mode :: parse_mode
  ret :: config_map

text \<open>
  The source leaves both arrays uninitialised. The model starts them filled with
  \<^verbatim>\<open>NUL\<close>; the scanner reads an array only in \<open>insert_ret\<close>, after it has written the
  terminator of the string it reads.
\<close>

definition init_locals :: "config_map \<Rightarrow> locals" where
  "init_locals m =
     \<lparr> param_name = replicate CONF_PARAM_NAME_MAX_LEN NUL,
       param_value = replicate CONF_PARAM_VALUE_MAX_LEN NUL,
       name_fill = 0, value_fill = 0, line = 1, mode = parse_skip_space, ret = m \<rparr>"

definition insert_ret :: "locals \<Rightarrow> locals" where
  "insert_ret st = st\<lparr> ret := insert_pair (c_str (param_name st)) (c_str (param_value st)) (ret st) \<rparr>"

text \<open>What one iteration of the loop ends in.\<close>

datatype outcome =
    Next locals        \<comment> \<open>the iteration is over (\<^verbatim>\<open>continue\<close>, or \<^verbatim>\<open>break\<close> out of the switch)\<close>
  | Break locals       \<comment> \<open>\<^verbatim>\<open>break\<close> out of the loop\<close>
  | Return int locals  \<comment> \<open>\<^verbatim>\<open>return\<close> of an error code\<close>

subsection \<open>One iteration of the loop\<close>

definition step :: "bool \<Rightarrow> char \<Rightarrow> locals \<Rightarrow> outcome" where
  "step sg c st =
    (if char_to_int sg c = EOF then
       (if mode st = parse_value_in_single_quote \<or> mode st = parse_value_in_double_quote
        then Break (insert_ret (st\<lparr> param_value := (param_value st)[value_fill st := NUL] \<rparr>))
        else Break st)
     else case mode st of
       parse_skip_space \<Rightarrow>
         if c = CHR ''#'' then Next (st\<lparr> mode := parse_skip_comment_line \<rparr>)
         else if c = NL then Next (st\<lparr> line := line st + 1 \<rparr>)
         else if isalpha c then
           Next (st\<lparr> param_name := (param_name st)[0 := c], name_fill := 1,
                     mode := parse_param_name \<rparr>)
         else if \<not> isspace c then Return CONFERR_WRONGPARAM (st\<lparr> ret := Map.empty \<rparr>)
         else Next st
     | parse_skip_comment_line \<Rightarrow>
         if c = NL then Next (st\<lparr> line := line st + 1, mode := parse_skip_space \<rparr>)
         else Next st
     | parse_param_name \<Rightarrow>
         if isspace c then
           Next (st\<lparr> line := (if c = NL then line st + 1 else line st),
                     param_name := (param_name st)[name_fill st := NUL],
                     name_fill := name_fill st + 1,
                     mode := parse_skip_space_before_equal \<rparr>)
         else if c = CHR ''='' then
           Next (st\<lparr> param_name := (param_name st)[name_fill st := NUL],
                     name_fill := name_fill st + 1,
                     mode := parse_skip_space_after_equal \<rparr>)
         else if isalpha c \<or> isdigit c \<or> c = CHR ''_'' then
           (if name_fill st + 1 > CONF_PARAM_NAME_MAX_LEN - 1
            then Return CONFERR_WRONGPARAM
                   (st\<lparr> param_name := (param_name st)[name_fill st := c], ret := Map.empty \<rparr>)
            else Next (st\<lparr> param_name := (param_name st)[name_fill st := c],
                           name_fill := name_fill st + 1 \<rparr>))
         else Return CONFERR_WRONGPARAM (st\<lparr> ret := Map.empty \<rparr>)
     | parse_skip_space_before_equal \<Rightarrow>
         if isspace c then Next (st\<lparr> line := (if c = NL then line st + 1 else line st) \<rparr>)
         else if c = CHR ''='' then Next (st\<lparr> mode := parse_skip_space_after_equal \<rparr>)
         else Next st
     | parse_skip_space_after_equal \<Rightarrow>
         if isspace c then Next (st\<lparr> line := (if c = NL then line st + 1 else line st) \<rparr>)
         else if c = SQUOTE then Next (st\<lparr> mode := parse_value_in_single_quote, value_fill := 0 \<rparr>)
         else if c = DQUOTE then Next (st\<lparr> mode := parse_value_in_double_quote, value_fill := 0 \<rparr>)
         else if c = CHR ''#'' then
           Next ((insert_ret (st\<lparr> value_fill := 0, param_value := (param_value st)[0 := NUL] \<rparr>))
                   \<lparr> mode := parse_skip_comment_line \<rparr>)
         else Next (st\<lparr> param_value := (param_value st)[0 := c], value_fill := 1,
                        mode := parse_value \<rparr>)
     | parse_value \<Rightarrow>
         if isspace c \<or> c = CHR ''#'' then
           Next ((insert_ret (st\<lparr> param_value := (param_value st)[value_fill st := NUL],
                                  value_fill := value_fill st + 1 \<rparr>))
                   \<lparr> line := (if c = NL then line st + 1 else line st),
                     mode := (if c = NL then parse_skip_space
                              else if c = CHR ''#'' then parse_skip_comment_line
                              else parse_line_end) \<rparr>)
         else if value_fill st + 1 > CONF_PARAM_VALUE_MAX_LEN - 1
           then Return CONFERR_WRONGVALUE
                  (st\<lparr> param_value := (param_value st)[value_fill st := c], ret := Map.empty \<rparr>)
         else Next (st\<lparr> param_value := (param_value st)[value_fill st := c],
                        value_fill := value_fill st + 1 \<rparr>)
     | parse_line_end \<Rightarrow>
         if isspace c then
           (if c = NL then Next (st\<lparr> line := line st + 1, mode := parse_skip_space \<rparr>)
            else Next st)
         else if c = CHR ''#'' then Next (st\<lparr> mode := parse_skip_comment_line \<rparr>)
         else Return CONFERR_WRONGSYNTAX (st\<lparr> ret := Map.empty \<rparr>)
     | parse_value_in_single_quote \<Rightarrow>
         if c \<noteq> SQUOTE then
           (if value_fill st + 1 > CONF_PARAM_VALUE_MAX_LEN - 1
            then Return CONFERR_WRONGVALUE
                   (st\<lparr> line := (if c = NL then line st + 1 else line st),
                        param_value := (param_value st)[value_fill st := c], ret := Map.empty \<rparr>)
            else Next (st\<lparr> line := (if c = NL then line st + 1 else line st),
                           param_value := (param_value st)[value_fill st := c],
                           value_fill := value_fill st + 1 \<rparr>))
         else
           Next ((insert_ret (st\<lparr> param_value := (param_value st)[value_fill st := NUL],
                                  value_fill := value_fill st + 1 \<rparr>))
                   \<lparr> mode := parse_skip_space \<rparr>)
     | parse_value_in_double_quote \<Rightarrow>
         if c \<noteq> DQUOTE then
           (if value_fill st + 1 > CONF_PARAM_VALUE_MAX_LEN - 1
            then Return CONFERR_WRONGVALUE
                   (st\<lparr> line := (if c = NL then line st + 1 else line st),
                        param_value := (param_value st)[value_fill st := c], ret := Map.empty \<rparr>)
            else Next (st\<lparr> line := (if c = NL then line st + 1 else line st),
                           param_value := (param_value st)[value_fill st := c],
                           value_fill := value_fill st + 1 \<rparr>))
         else
           Next ((insert_ret (st\<lparr> param_value := (param_value st)[value_fill st := NUL],
                                  value_fill := value_fill st + 1 \<rparr>))
                   \<lparr> mode := parse_skip_space \<rparr>))"

subsection \<open>The loop and the function\<close>

text \<open>
  \<^verbatim>\<open>while (fconf.get(c))\<close>: the loop takes the characters of the file in order and
  ends when there is none left; then the function returns 0. A \<^verbatim>\<open>break\<close> also leads to
  \<^verbatim>\<open>return 0\<close>; an error returns its code at once.
\<close>

fun loop :: "bool \<Rightarrow> string \<Rightarrow> locals \<Rightarrow> outcome" where
  "loop sg [] st = Next st"
| "loop sg (c # cs) st =
     (case step sg c st of
        Next st' \<Rightarrow> loop sg cs st'
      | Break st' \<Rightarrow> Break st'
      | Return code st' \<Rightarrow> Return code st')"

text \<open>
  \<open>fconf\<close> is what opening the file gives: its characters, or \<open>None\<close> when it cannot
  be opened. \<open>ret\<close> is the caller's pointer: \<open>None\<close> the null pointer, \<open>Some m\<close> a map
  that holds \<open>m\<close>. The result is the returned code and the map behind the pointer.
\<close>

definition parse_config :: "bool \<Rightarrow> string option \<Rightarrow> config_map option \<Rightarrow> int \<times> config_map option" where
  "parse_config sg fconf retp =
     (case retp of
        None \<Rightarrow> (CONFERR_NORET, None)
      | Some m \<Rightarrow>
          (case fconf of
             None \<Rightarrow> (CONFERR_ERRFILE, Some m)
           | Some cs \<Rightarrow>
               (case loop sg cs (init_locals m) of
                  Next st \<Rightarrow> (0, Some (ret st))
                | Break st \<Rightarrow> (0, Some (ret st))
                | Return code st \<Rightarrow> (code, Some (ret st)))))"

subsection \<open>Classes of input text, for the statements below\<close>

text \<open>
  The characters a parameter name continues with (the third test of the
  \<^verbatim>\<open>parse_param_name\<close> case), and a name as the grammar has it: a letter, then such
  characters.
\<close>

definition name_char :: "char \<Rightarrow> bool" where
  "name_char c = (isalpha c \<or> isdigit c \<or> c = CHR ''_'')"

fun valid_name :: "string \<Rightarrow> bool" where
  "valid_name [] = False"
| "valid_name (c # cs) = (isalpha c \<and> list_all name_char cs)"

text \<open>
  The characters that the three value modes append to \<^verbatim>\<open>param_value\<close>: in
  \<^verbatim>\<open>parse_value\<close> all but white space and \<^verbatim>\<open>#\<close>, in a quoted mode all but the closing
  quote; the test \<^verbatim>\<open>c == EOF\<close> comes before the switch in every mode.
\<close>

definition accum_char :: "bool \<Rightarrow> parse_mode \<Rightarrow> char \<Rightarrow> bool" where
  "accum_char sg md c =
     (char_to_int sg c \<noteq> EOF \<and>
      (case md of
         parse_value \<Rightarrow> \<not> isspace c \<and> c \<noteq> CHR ''#''
       | parse_value_in_single_quote \<Rightarrow> c \<noteq> SQUOTE
       | parse_value_in_double_quote \<Rightarrow> c \<noteq> DQUOTE
       | _ \<Rightarrow> False))"

text \<open>The first character of an unquoted value: what \<^verbatim>\<open>parse_skip_space_after_equal\<close>
  takes as such.\<close>

definition value_start :: "bool \<Rightarrow> char \<Rightarrow> bool" where
  "value_start sg c =
     (char_to_int sg c \<noteq> EOF \<and> \<not> isspace c \<and> c \<noteq> SQUOTE \<and> c \<noteq> DQUOTE \<and> c \<noteq> CHR ''#'')"

text \<open>An unquoted value: its first character, then characters that \<^verbatim>\<open>parse_value\<close>
  appends.\<close>

fun unquoted_value :: "bool \<Rightarrow> string \<Rightarrow> bool" where
  "unquoted_value sg [] = False"
| "unquoted_value sg (c # cs) = (value_start sg c \<and> list_all (accum_char sg parse_value) cs)"

text \<open>Both arrays have their declared lengths.\<close>

definition bufs_ok :: "locals \<Rightarrow> bool" where
  "bufs_ok st =
     (length (param_name st) = CONF_PARAM_NAME_MAX_LEN \<and>
      length (param_value st) = CONF_PARAM_VALUE_MAX_LEN)"

text \<open>The number of newlines in a text: what the line counter grows by.\<close>

definition newlines :: "string \<Rightarrow> int" where
  "newlines cs = int (length (filter (\<lambda>c. c = NL) cs))"

text \<open>
  The indices the scanner writes at: \<^verbatim>\<open>param_name[name_fill]\<close> is written in the mode
  \<^verbatim>\<open>parse_param_name\<close> only, \<^verbatim>\<open>param_value[value_fill]\<close> in the three value modes
  only, and the other writes are at index 0. From the closing of a name to the commit
  of its value, the name in \<^verbatim>\<open>param_name\<close> is terminated.
\<close>

definition in_bounds :: "locals \<Rightarrow> bool" where
  "in_bounds st =
     (bufs_ok st \<and>
      (mode st = parse_param_name \<longrightarrow> name_fill st < CONF_PARAM_NAME_MAX_LEN) \<and>
      (mode st = parse_value \<or> mode st = parse_value_in_single_quote \<or>
       mode st = parse_value_in_double_quote \<longrightarrow> value_fill st < CONF_PARAM_VALUE_MAX_LEN) \<and>
      (mode st = parse_skip_space_before_equal \<or> mode st = parse_skip_space_after_equal \<or>
       mode st = parse_value \<or> mode st = parse_value_in_single_quote \<or>
       mode st = parse_value_in_double_quote \<longrightarrow>
         0 < name_fill st \<and> name_fill st \<le> CONF_PARAM_NAME_MAX_LEN \<and>
         param_name st ! (name_fill st - 1) = NUL))"

text \<open>
  The line counter is read by the diagnostics only. To say that two runs differ in
  nothing but the counter, \<open>shift_line\<close> adds a number to it.
\<close>

definition shift_line :: "int \<Rightarrow> locals \<Rightarrow> locals" where
  "shift_line d st = st\<lparr> line := line st + d \<rparr>"

fun shift_outcome :: "int \<Rightarrow> outcome \<Rightarrow> outcome" where
  "shift_outcome d (Next st) = Next (shift_line d st)"
| "shift_outcome d (Break st) = Break (shift_line d st)"
| "shift_outcome d (Return code st) = Return code (shift_line d st)"

text \<open>The code a run of the loop makes \<^verbatim>\<open>parse_config\<close> return.\<close>

fun status :: "outcome \<Rightarrow> int" where
  "status (Next st) = 0"
| "status (Break st) = 0"
| "status (Return code st) = code"

section \<open>Properties of the scanner\<close>

subsection \<open>Characters\<close>

lemma EOF_iff: "(char_to_int sg c = EOF) = (sg \<and> c = CHR 0xFF)"
proof -
  have lt: "(of_char c :: nat) < 256" by simp
  have eq: "((of_char c :: nat) = 255) = (c = CHR 0xFF)"
  proof
    assume "(of_char c :: nat) = 255"
    then have "(of_char c :: nat) = of_char (CHR 0xFF)" by simp
    then show "c = CHR 0xFF" by (simp only: of_char_eq_iff)
  next
    assume "c = CHR 0xFF" then show "(of_char c :: nat) = 255" by simp
  qed
  show ?thesis using lt eq by (auto simp: char_to_int_def EOF_def)
qed

lemma isalpha_facts:
  assumes "isalpha c"
  shows "\<not> isspace c" "c \<noteq> CHR ''#''" "c \<noteq> NL" "c \<noteq> CHR ''=''" "c \<noteq> NUL" "char_to_int sg c \<noteq> EOF" "name_char c"
  using assms by (auto simp: isalpha_def isspace_def name_char_def EOF_iff Let_def)

lemma name_char_facts:
  assumes "name_char c"
  shows "\<not> isspace c" "c \<noteq> CHR ''#''" "c \<noteq> NL" "c \<noteq> CHR ''=''" "c \<noteq> NUL" "char_to_int sg c \<noteq> EOF"
  using assms by (auto simp: isalpha_def isdigit_def isspace_def name_char_def EOF_iff Let_def)

lemma isspace_facts:
  assumes "isspace c"
  shows "c \<noteq> CHR ''#''" "c \<noteq> CHR ''=''" "c \<noteq> NUL" "char_to_int sg c \<noteq> EOF" "c \<noteq> SQUOTE" "c \<noteq> DQUOTE" "\<not> isalpha c"
  using assms by (auto simp: isalpha_def isdigit_def isspace_def name_char_def EOF_iff Let_def)

lemma fixed_chars:
  "\<not> isspace (CHR ''='')" "\<not> isspace (CHR ''#'')" "\<not> isspace SQUOTE" "\<not> isspace DQUOTE" "isspace NL"
  "char_to_int sg (CHR ''='') \<noteq> EOF" "char_to_int sg (CHR ''#'') \<noteq> EOF" "char_to_int sg NL \<noteq> EOF"
  "char_to_int sg SQUOTE \<noteq> EOF" "char_to_int sg DQUOTE \<noteq> EOF"
  by (simp_all add: isspace_def EOF_iff)

subsection \<open>The loop over a text in two parts\<close>

lemma loop_append:
  "loop sg (xs @ ys) st =
     (case loop sg xs st of Next st' \<Rightarrow> loop sg ys st' | Break st' \<Rightarrow> Break st' | Return code st' \<Rightarrow> Return code st')"
  by (induction xs arbitrary: st) (auto split: outcome.splits)

lemma loop_append_Next: "loop sg xs st = Next st' \<Longrightarrow> loop sg (xs @ ys) st = loop sg ys st'"
  by (simp add: loop_append)

lemma loop_Cons_Next: "step sg c st = Next st' \<Longrightarrow> loop sg (c # cs) st = loop sg cs st'"
  by simp

lemma loop_snoc_Next: "loop sg xs st = Next st' \<Longrightarrow> loop sg (xs @ [c]) st = step sg c st'"
  by (simp add: loop_append split: outcome.splits)

subsection \<open>Single iterations, mode by mode\<close>

lemma step_skip_space_alpha:
  "mode st = parse_skip_space \<Longrightarrow> isalpha c \<Longrightarrow>
   step sg c st = Next (st\<lparr> param_name := (param_name st)[0 := c], name_fill := 1, mode := parse_param_name \<rparr>)"
  by (simp add: step_def isalpha_facts)

lemma step_name_char:
  "mode st = parse_param_name \<Longrightarrow> name_char c \<Longrightarrow> name_fill st < CONF_PARAM_NAME_MAX_LEN - 1 \<Longrightarrow>
   step sg c st = Next (st\<lparr> param_name := (param_name st)[name_fill st := c], name_fill := name_fill st + 1 \<rparr>)"
  unfolding step_def using name_char_facts[of c] by (auto simp: name_char_def)

lemma step_name_char_overflow:
  "mode st = parse_param_name \<Longrightarrow> name_char c \<Longrightarrow> \<not> name_fill st < CONF_PARAM_NAME_MAX_LEN - 1 \<Longrightarrow>
   step sg c st = Return CONFERR_WRONGPARAM (st\<lparr> param_name := (param_name st)[name_fill st := c], ret := Map.empty \<rparr>)"
  unfolding step_def using name_char_facts[of c] by (auto simp: name_char_def)

lemma step_name_equal:
  "mode st = parse_param_name \<Longrightarrow>
   step sg (CHR ''='') st = Next (st\<lparr> param_name := (param_name st)[name_fill st := NUL],
       name_fill := name_fill st + 1, mode := parse_skip_space_after_equal \<rparr>)"
  by (simp add: step_def fixed_chars)

lemma step_name_space:
  "mode st = parse_param_name \<Longrightarrow> isspace c \<Longrightarrow>
   step sg c st = Next (st\<lparr> line := (if c = NL then line st + 1 else line st),
       param_name := (param_name st)[name_fill st := NUL],
       name_fill := name_fill st + 1, mode := parse_skip_space_before_equal \<rparr>)"
  by (simp add: step_def isspace_facts)

lemma step_accum:
  assumes "mode st = md" "accum_char sg md c" "value_fill st < CONF_PARAM_VALUE_MAX_LEN - 1"
  shows "step sg c st = Next (st\<lparr> line := (if c = NL then line st + 1 else line st),
            param_value := (param_value st)[value_fill st := c],
            value_fill := value_fill st + 1 \<rparr>)"
proof (cases md)
  case parse_value
  then have "c \<noteq> NL" using assms(2) by (auto simp: accum_char_def fixed_chars)
  then show ?thesis using assms parse_value by (simp add: step_def accum_char_def)
next
  case parse_value_in_single_quote
  then show ?thesis using assms by (simp add: step_def accum_char_def)
next
  case parse_value_in_double_quote
  then show ?thesis using assms by (simp add: step_def accum_char_def)
qed (use assms in \<open>simp_all add: accum_char_def\<close>)

lemma step_accum_overflow:
  assumes "mode st = md" "accum_char sg md c" "\<not> value_fill st < CONF_PARAM_VALUE_MAX_LEN - 1"
  shows "\<exists>st'. step sg c st = Return CONFERR_WRONGVALUE st' \<and> ret st' = Map.empty"
proof (cases md)
  case parse_value
  then show ?thesis using assms by (simp add: step_def accum_char_def)
next
  case parse_value_in_single_quote
  then show ?thesis using assms by (simp add: step_def accum_char_def)
next
  case parse_value_in_double_quote
  then show ?thesis using assms by (simp add: step_def accum_char_def)
qed (use assms in \<open>simp_all add: accum_char_def\<close>)

lemma step_after_equal_start:
  "mode st = parse_skip_space_after_equal \<Longrightarrow> value_start sg c \<Longrightarrow>
   step sg c st = Next (st\<lparr> param_value := (param_value st)[0 := c], value_fill := 1, mode := parse_value \<rparr>)"
  by (simp add: step_def value_start_def)

lemma step_after_equal_quote:
  "mode st = parse_skip_space_after_equal \<Longrightarrow>
   step sg SQUOTE st = Next (st\<lparr> mode := parse_value_in_single_quote, value_fill := 0 \<rparr>)"
  "mode st = parse_skip_space_after_equal \<Longrightarrow>
   step sg DQUOTE st = Next (st\<lparr> mode := parse_value_in_double_quote, value_fill := 0 \<rparr>)"
  by (simp_all add: step_def fixed_chars)

lemma step_after_equal_hash:
  "mode st = parse_skip_space_after_equal \<Longrightarrow>
   step sg (CHR ''#'') st =
     Next ((insert_ret (st\<lparr> value_fill := 0, param_value := (param_value st)[0 := NUL] \<rparr>))
             \<lparr> mode := parse_skip_comment_line \<rparr>)"
  by (simp add: step_def fixed_chars)

lemma step_after_equal_space:
  "mode st = parse_skip_space_after_equal \<Longrightarrow> isspace c \<Longrightarrow>
   step sg c st = Next (st\<lparr> line := (if c = NL then line st + 1 else line st) \<rparr>)"
  by (simp add: step_def isspace_facts)

lemma step_value_end:
  "mode st = parse_value \<Longrightarrow> isspace c \<or> c = CHR ''#'' \<Longrightarrow>
   step sg c st =
     Next ((insert_ret (st\<lparr> param_value := (param_value st)[value_fill st := NUL],
                            value_fill := value_fill st + 1 \<rparr>))
             \<lparr> line := (if c = NL then line st + 1 else line st),
               mode := (if c = NL then parse_skip_space
                        else if c = CHR ''#'' then parse_skip_comment_line
                        else parse_line_end) \<rparr>)"
  by (auto simp: step_def isspace_facts fixed_chars)

lemma step_quote_end:
  "mode st = parse_value_in_single_quote \<Longrightarrow>
   step sg SQUOTE st =
     Next ((insert_ret (st\<lparr> param_value := (param_value st)[value_fill st := NUL],
                            value_fill := value_fill st + 1 \<rparr>))
             \<lparr> mode := parse_skip_space \<rparr>)"
  "mode st = parse_value_in_double_quote \<Longrightarrow>
   step sg DQUOTE st =
     Next ((insert_ret (st\<lparr> param_value := (param_value st)[value_fill st := NUL],
                            value_fill := value_fill st + 1 \<rparr>))
             \<lparr> mode := parse_skip_space \<rparr>)"
  by (simp_all add: step_def fixed_chars)

subsection \<open>Strings in the buffers\<close>

lemma c_str_append_NUL: "c_str (xs @ NUL # ys) = c_str xs"
  by (induction xs) (simp_all add: c_str_def)

lemma c_str_id: "NUL \<notin> set xs \<Longrightarrow> c_str xs = xs"
  by (induction xs) (auto simp: c_str_def)

lemma update_written:
  assumes "k + length cs < length buf"
  shows "(take k buf @ cs @ drop (k + length cs) buf)[k + length cs := c]
         = take k buf @ (cs @ [c]) @ drop (k + length (cs @ [c])) buf"
proof -
  have d: "drop (k + length cs) buf = buf ! (k + length cs) # drop (Suc (k + length cs)) buf"
    using assms by (simp add: Cons_nth_drop_Suc)
  have lk: "length (take k buf @ cs) = k + length cs" using assms by simp
  have "((take k buf @ cs) @ buf ! (k + length cs) # drop (Suc (k + length cs)) buf)[length (take k buf @ cs) := c]
        = (take k buf @ cs) @ c # drop (Suc (k + length cs)) buf"
    by (rule list_update_length)
  then show ?thesis
    unfolding lk d by simp
qed

lemma take_one_update: "0 < length b \<Longrightarrow> take (Suc 0) (b[0 := c]) = [c]"
  by (cases b) simp_all

subsection \<open>Runs of characters that a mode appends\<close>

lemma loop_name_chars:
  assumes "mode st = parse_param_name" "list_all name_char cs"
    "name_fill st + length cs \<le> CONF_PARAM_NAME_MAX_LEN - 1"
    "length (param_name st) = CONF_PARAM_NAME_MAX_LEN"
  shows "loop sg cs st =
     Next (st\<lparr> param_name := take (name_fill st) (param_name st) @ cs
                    @ drop (name_fill st + length cs) (param_name st),
               name_fill := name_fill st + length cs \<rparr>)"
  using assms
proof (induction cs arbitrary: st rule: rev_induct)
  case Nil
  then show ?case by simp
next
  case (snoc c cs)
  let ?k = "name_fill st"
  let ?b = "param_name st"
  let ?st1 = "st\<lparr> param_name := take ?k ?b @ cs @ drop (?k + length cs) ?b, name_fill := ?k + length cs \<rparr>"
  have 1: "loop sg cs st = Next ?st1" using snoc by simp
  have lt: "?k + length cs < CONF_PARAM_NAME_MAX_LEN - 1" using snoc.prems by simp
  have nc: "name_char c" using snoc.prems by simp
  have 2: "step sg c ?st1 = Next (?st1\<lparr> param_name := (param_name ?st1)[name_fill ?st1 := c], name_fill := name_fill ?st1 + 1 \<rparr>)"
    by (rule step_name_char) (use snoc.prems nc lt in simp_all)
  have 3: "(param_name ?st1)[name_fill ?st1 := c] = take ?k ?b @ (cs @ [c]) @ drop (?k + length (cs @ [c])) ?b"
    using update_written[of ?k cs ?b c] lt snoc.prems by simp
  show ?case
    unfolding loop_snoc_Next[OF 1] using 2 3 by simp
qed

lemma newlines_simps [simp]:
  "newlines [] = 0" "newlines (cs @ [c]) = newlines cs + (if c = NL then 1 else 0)"
  "newlines (c # cs) = (if c = NL then 1 else 0) + newlines cs"
  by (simp_all add: newlines_def)

lemma loop_accum:
  assumes "mode st = md" "list_all (accum_char sg md) cs"
    "value_fill st + length cs \<le> CONF_PARAM_VALUE_MAX_LEN - 1"
    "length (param_value st) = CONF_PARAM_VALUE_MAX_LEN"
  shows "loop sg cs st =
     Next (st\<lparr> line := line st + newlines cs,
               param_value := take (value_fill st) (param_value st) @ cs
                    @ drop (value_fill st + length cs) (param_value st),
               value_fill := value_fill st + length cs \<rparr>)"
  using assms
proof (induction cs arbitrary: st rule: rev_induct)
  case Nil
  then show ?case by simp
next
  case (snoc c cs)
  let ?k = "value_fill st"
  let ?b = "param_value st"
  let ?st1 = "st\<lparr> line := line st + newlines cs,
                   param_value := take ?k ?b @ cs @ drop (?k + length cs) ?b, value_fill := ?k + length cs \<rparr>"
  have 1: "loop sg cs st = Next ?st1" using snoc by simp
  have lt: "?k + length cs < CONF_PARAM_VALUE_MAX_LEN - 1" using snoc.prems by simp
  have nc: "accum_char sg md c" using snoc.prems by simp
  have 2: "step sg c ?st1 = Next (?st1\<lparr> line := (if c = NL then line ?st1 + 1 else line ?st1),
             param_value := (param_value ?st1)[value_fill ?st1 := c], value_fill := value_fill ?st1 + 1 \<rparr>)"
    by (rule step_accum[where md = md]) (use snoc.prems nc lt in simp_all)
  have 3: "(param_value ?st1)[value_fill ?st1 := c] = take ?k ?b @ (cs @ [c]) @ drop (?k + length (cs @ [c])) ?b"
    using update_written[of ?k cs ?b c] lt snoc.prems by simp
  show ?case
    unfolding loop_snoc_Next[OF 1] using 2 3 by simp
qed

subsection \<open>A name, from its first letter to the character that closes it\<close>

lemma loop_name:
  assumes "mode st = parse_skip_space" "bufs_ok st" "valid_name nm"
    "length nm \<le> CONF_PARAM_NAME_MAX_LEN - 1"
  shows "loop sg nm st =
     Next (st\<lparr> param_name := nm @ drop (length nm) (param_name st),
               name_fill := length nm, mode := parse_param_name \<rparr>)"
proof -
  obtain c cs where nm: "nm = c # cs" using assms(3) by (cases nm) simp_all
  have al: "isalpha c" and cs: "list_all name_char cs" using assms(3) nm by simp_all
  let ?b = "param_name st"
  let ?st1 = "st\<lparr> param_name := ?b[0 := c], name_fill := 1, mode := parse_param_name \<rparr>"
  have lb: "length ?b = CONF_PARAM_NAME_MAX_LEN" using assms(2) by (simp add: bufs_ok_def)
  have pos: "0 < length ?b" using lb by (simp add: CONF_PARAM_NAME_MAX_LEN_def)
  have 1: "step sg c st = Next ?st1" by (rule step_skip_space_alpha[OF assms(1) al])
  have 2: "loop sg cs ?st1 =
     Next (?st1\<lparr> param_name := take (name_fill ?st1) (param_name ?st1) @ cs
                    @ drop (name_fill ?st1 + length cs) (param_name ?st1),
               name_fill := name_fill ?st1 + length cs \<rparr>)"
    by (rule loop_name_chars) (use cs assms(4) nm lb in simp_all)
  show ?thesis
    unfolding nm loop_Cons_Next[OF 1] 2 using pos by (simp add: take_one_update)
qed

lemma name_no_NUL: "valid_name nm \<Longrightarrow> NUL \<notin> set nm"
proof (cases nm)
  case Nil
  assume "valid_name nm" then show ?thesis using Nil by simp
next
  case (Cons c cs)
  assume "valid_name nm"
  then have "isalpha c" "\<forall>x\<in>set cs. name_char x" using Cons by (simp_all add: list_all_iff)
  then show ?thesis using Cons isalpha_facts(5)[of c] name_char_facts(5) by auto
qed

lemma name_closed:
  assumes "bufs_ok st" "valid_name nm" "length nm \<le> CONF_PARAM_NAME_MAX_LEN - 1"
  shows "c_str ((nm @ drop (length nm) (param_name st))[length nm := NUL]) = nm"
    and "length ((nm @ drop (length nm) (param_name st))[length nm := NUL]) = CONF_PARAM_NAME_MAX_LEN"
proof -
  let ?b = "param_name st"
  have lb: "length ?b = CONF_PARAM_NAME_MAX_LEN" using assms(1) by (simp add: bufs_ok_def)
  have lt: "length nm < length ?b" using assms(3) lb by (simp add: CONF_PARAM_NAME_MAX_LEN_def)
  have d: "drop (length nm) ?b = ?b ! length nm # drop (Suc (length nm)) ?b"
    using lt by (simp add: Cons_nth_drop_Suc)
  have "(nm @ ?b ! length nm # drop (Suc (length nm)) ?b)[length nm := NUL]
        = nm @ NUL # drop (Suc (length nm)) ?b"
    by (rule list_update_length)
  then have e: "(nm @ drop (length nm) ?b)[length nm := NUL] = nm @ NUL # drop (Suc (length nm)) ?b"
    using d by simp
  show "c_str ((nm @ drop (length nm) ?b)[length nm := NUL]) = nm"
    unfolding e c_str_append_NUL using name_no_NUL[OF assms(2)] by (rule c_str_id)
  show "length ((nm @ drop (length nm) ?b)[length nm := NUL]) = CONF_PARAM_NAME_MAX_LEN"
    using lt lb by simp
qed

lemma loop_name_equal:
  assumes "mode st = parse_skip_space" "bufs_ok st" "valid_name nm"
    "length nm \<le> CONF_PARAM_NAME_MAX_LEN - 1"
  shows "\<exists>st'. loop sg (nm @ [CHR ''='']) st = Next st' \<and> mode st' = parse_skip_space_after_equal
           \<and> c_str (param_name st') = nm \<and> bufs_ok st' \<and> ret st' = ret st"
proof -
  let ?st1 = "st\<lparr> param_name := nm @ drop (length nm) (param_name st),
               name_fill := length nm, mode := parse_param_name \<rparr>"
  have 1: "loop sg nm st = Next ?st1" by (rule loop_name[OF assms])
  have 2: "step sg (CHR ''='') ?st1 = Next (?st1\<lparr> param_name := (param_name ?st1)[name_fill ?st1 := NUL],
       name_fill := name_fill ?st1 + 1, mode := parse_skip_space_after_equal \<rparr>)"
    by (rule step_name_equal) simp
  show ?thesis
    unfolding loop_snoc_Next[OF 1] 2
    using name_closed[OF assms(2,3,4)] assms(2) by (simp add: bufs_ok_def)
qed

lemma loop_name_space:
  assumes "mode st = parse_skip_space" "bufs_ok st" "valid_name nm"
    "length nm \<le> CONF_PARAM_NAME_MAX_LEN - 1" "isspace w"
  shows "\<exists>st'. loop sg (nm @ [w]) st = Next st' \<and> mode st' = parse_skip_space_before_equal
           \<and> c_str (param_name st') = nm \<and> bufs_ok st' \<and> ret st' = ret st"
proof -
  let ?st1 = "st\<lparr> param_name := nm @ drop (length nm) (param_name st),
               name_fill := length nm, mode := parse_param_name \<rparr>"
  have 1: "loop sg nm st = Next ?st1" by (rule loop_name[OF assms(1-4)])
  have 2: "step sg w ?st1 = Next (?st1\<lparr> line := (if w = NL then line ?st1 + 1 else line ?st1),
       param_name := (param_name ?st1)[name_fill ?st1 := NUL],
       name_fill := name_fill ?st1 + 1, mode := parse_skip_space_before_equal \<rparr>)"
    by (rule step_name_space) (use assms(5) in simp_all)
  show ?thesis
    unfolding loop_snoc_Next[OF 1] 2
    using name_closed[OF assms(2,3,4)] assms(2) by (simp add: bufs_ok_def)
qed

subsection \<open>A value, from the character after \<^verbatim>\<open>=\<close> to the one that closes it\<close>

lemma value_terminated:
  assumes "length (param_value st) = CONF_PARAM_VALUE_MAX_LEN" "length v \<le> CONF_PARAM_VALUE_MAX_LEN - 1"
  shows "c_str ((v @ drop (length v) (param_value st))[length v := NUL]) = c_str v"
    and "length ((v @ drop (length v) (param_value st))[length v := NUL]) = CONF_PARAM_VALUE_MAX_LEN"
proof -
  let ?b = "param_value st"
  have lt: "length v < length ?b" using assms by (simp add: CONF_PARAM_VALUE_MAX_LEN_def)
  have d: "drop (length v) ?b = ?b ! length v # drop (Suc (length v)) ?b"
    using lt by (simp add: Cons_nth_drop_Suc)
  have "(v @ ?b ! length v # drop (Suc (length v)) ?b)[length v := NUL]
        = v @ NUL # drop (Suc (length v)) ?b"
    by (rule list_update_length)
  then have e: "(v @ drop (length v) ?b)[length v := NUL] = v @ NUL # drop (Suc (length v)) ?b"
    using d by simp
  show "c_str ((v @ drop (length v) ?b)[length v := NUL]) = c_str v"
    unfolding e by (rule c_str_append_NUL)
  show "length ((v @ drop (length v) ?b)[length v := NUL]) = CONF_PARAM_VALUE_MAX_LEN"
    using lt assms(1) by simp
qed

lemma loop_value_chars:
  assumes "mode st = parse_skip_space_after_equal" "bufs_ok st"
    "value_start sg c" "list_all (accum_char sg parse_value) cs"
    "length (c # cs) \<le> CONF_PARAM_VALUE_MAX_LEN - 1"
  shows "loop sg (c # cs) st =
     Next (st\<lparr> param_value := (c # cs) @ drop (length (c # cs)) (param_value st),
               value_fill := length (c # cs), mode := parse_value \<rparr>)"
proof -
  let ?b = "param_value st"
  let ?st1 = "st\<lparr> param_value := ?b[0 := c], value_fill := 1, mode := parse_value \<rparr>"
  have lb: "length ?b = CONF_PARAM_VALUE_MAX_LEN" using assms(2) by (simp add: bufs_ok_def)
  have pos: "0 < length ?b" using lb by (simp add: CONF_PARAM_VALUE_MAX_LEN_def)
  have nl: "newlines cs = 0"
    using assms(4) by (induction cs) (auto simp: accum_char_def fixed_chars)
  have 1: "step sg c st = Next ?st1" by (rule step_after_equal_start[OF assms(1,3)])
  have 2: "loop sg cs ?st1 =
     Next (?st1\<lparr> line := line ?st1 + newlines cs,
               param_value := take (value_fill ?st1) (param_value ?st1) @ cs
                    @ drop (value_fill ?st1 + length cs) (param_value ?st1),
               value_fill := value_fill ?st1 + length cs \<rparr>)"
    by (rule loop_accum[where md = parse_value]) (use assms(4,5) lb in simp_all)
  show ?thesis
    unfolding loop_Cons_Next[OF 1] 2 using pos nl by (simp add: take_one_update)
qed

lemma loop_value_unquoted:
  assumes "mode st = parse_skip_space_after_equal" "bufs_ok st"
    "value_start sg c" "list_all (accum_char sg parse_value) cs"
    "length (c # cs) \<le> CONF_PARAM_VALUE_MAX_LEN - 1" "isspace t \<or> t = CHR ''#''"
  shows "\<exists>st'. loop sg (c # cs @ [t]) st = Next st'
           \<and> ret st' = insert_pair (c_str (param_name st)) (c_str (c # cs)) (ret st)
           \<and> mode st' = (if t = NL then parse_skip_space
                          else if t = CHR ''#'' then parse_skip_comment_line else parse_line_end)
           \<and> bufs_ok st'"
proof -
  let ?v = "c # cs"
  let ?st1 = "st\<lparr> param_value := ?v @ drop (length ?v) (param_value st),
               value_fill := length ?v, mode := parse_value \<rparr>"
  have lb: "length (param_value st) = CONF_PARAM_VALUE_MAX_LEN" using assms(2) by (simp add: bufs_ok_def)
  have 1: "loop sg ?v st = Next ?st1" by (rule loop_value_chars[OF assms(1-5)])
  have 2: "step sg t ?st1 =
     Next ((insert_ret (?st1\<lparr> param_value := (param_value ?st1)[value_fill ?st1 := NUL],
                            value_fill := value_fill ?st1 + 1 \<rparr>))
             \<lparr> line := (if t = NL then line ?st1 + 1 else line ?st1),
               mode := (if t = NL then parse_skip_space
                        else if t = CHR ''#'' then parse_skip_comment_line
                        else parse_line_end) \<rparr>)"
    by (rule step_value_end) (use assms(6) in simp_all)
  have 3: "loop sg (c # cs @ [t]) st = step sg t ?st1"
    using loop_snoc_Next[OF 1, of t] by simp
  show ?thesis
    unfolding 3 2
    using value_terminated[OF lb assms(5)] assms(2)
    by (simp add: insert_ret_def bufs_ok_def)
qed

lemma loop_value_quoted:
  assumes "mode st = parse_skip_space_after_equal" "bufs_ok st"
    "(md = parse_value_in_single_quote \<and> q = SQUOTE) \<or> (md = parse_value_in_double_quote \<and> q = DQUOTE)"
    "list_all (accum_char sg md) v" "length v \<le> CONF_PARAM_VALUE_MAX_LEN - 1"
  shows "\<exists>st'. loop sg (q # v @ [q]) st = Next st'
           \<and> ret st' = insert_pair (c_str (param_name st)) (c_str v) (ret st)
           \<and> mode st' = parse_skip_space \<and> bufs_ok st'"
proof -
  let ?st0 = "st\<lparr> mode := md, value_fill := 0 \<rparr>"
  let ?st1 = "?st0\<lparr> line := line ?st0 + newlines v,
               param_value := take (value_fill ?st0) (param_value ?st0) @ v
                    @ drop (value_fill ?st0 + length v) (param_value ?st0),
               value_fill := value_fill ?st0 + length v \<rparr>"
  have lb: "length (param_value st) = CONF_PARAM_VALUE_MAX_LEN" using assms(2) by (simp add: bufs_ok_def)
  have 0: "step sg q st = Next ?st0"
    using assms(3) step_after_equal_quote[OF assms(1)] by auto
  have 1: "loop sg v ?st0 = Next ?st1"
    by (rule loop_accum[where md = md]) (use assms(4,5) lb in simp_all)
  have 2: "step sg q ?st1 =
     Next ((insert_ret (?st1\<lparr> param_value := (param_value ?st1)[value_fill ?st1 := NUL],
                            value_fill := value_fill ?st1 + 1 \<rparr>))
             \<lparr> mode := parse_skip_space \<rparr>)"
    using assms(3) step_quote_end[of ?st1 sg] by auto
  have 3: "loop sg (q # v @ [q]) st = step sg q ?st1"
    unfolding loop_Cons_Next[OF 0] by (rule loop_snoc_Next[OF 1])
  show ?thesis
    unfolding 3 2
    using value_terminated[OF lb assms(5)] assms(2)
    by (simp add: insert_ret_def bufs_ok_def)
qed

lemma loop_value_hash:
  assumes "mode st = parse_skip_space_after_equal" "bufs_ok st"
  shows "\<exists>st'. loop sg [CHR ''#''] st = Next st'
           \<and> ret st' = insert_pair (c_str (param_name st)) [] (ret st)
           \<and> mode st' = parse_skip_comment_line \<and> bufs_ok st'"
proof -
  have pos: "0 < length (param_value st)"
    using assms(2) by (simp add: bufs_ok_def CONF_PARAM_VALUE_MAX_LEN_def)
  then obtain x xs where b: "param_value st = x # xs" by (cases "param_value st") simp_all
  show ?thesis
    using assms(2) b by (simp add: step_after_equal_hash[OF assms(1)] insert_ret_def bufs_ok_def c_str_def)
qed

subsection \<open>The initial state, and the result of the function\<close>

lemma init_locals_facts [simp]:
  "mode (init_locals m) = parse_skip_space" "bufs_ok (init_locals m)" "ret (init_locals m) = m"
  by (simp_all add: init_locals_def bufs_ok_def)

lemma parse_config_Next:
  "loop sg cs (init_locals m) = Next st \<Longrightarrow> parse_config sg (Some cs) (Some m) = (0, Some (ret st))"
  by (simp add: parse_config_def)

lemma parse_config_Break:
  "loop sg cs (init_locals m) = Break st \<Longrightarrow> parse_config sg (Some cs) (Some m) = (0, Some (ret st))"
  by (simp add: parse_config_def)

lemma parse_config_Return:
  "loop sg cs (init_locals m) = Return code st \<Longrightarrow> parse_config sg (Some cs) (Some m) = (code, Some (ret st))"
  by (simp add: parse_config_def)

lemma loop_append_Return:
  "loop sg xs st = Next st1 \<Longrightarrow> step sg c st1 = Return code st' \<Longrightarrow>
   loop sg (xs @ c # ys) st = Return code st'"
  by (simp add: loop_append)

lemma loop_append_Break:
  "loop sg xs st = Next st1 \<Longrightarrow> step sg c st1 = Break st' \<Longrightarrow>
   loop sg (xs @ c # ys) st = Break st'"
  by (simp add: loop_append)

subsection \<open>One assignment as the whole file\<close>

lemma parse_assign_unquoted:
  assumes "valid_name nm" "length nm \<le> CONF_PARAM_NAME_MAX_LEN - 1"
    "unquoted_value sg v" "length v \<le> CONF_PARAM_VALUE_MAX_LEN - 1" "isspace t \<or> t = CHR ''#''"
  shows "parse_config sg (Some (nm @ CHR ''='' # v @ [t])) (Some m) = (0, Some (insert_pair nm (c_str v) m))"
proof -
  obtain c cs where v: "v = c # cs" using assms(3) by (cases v) simp_all
  obtain st1 where 1: "loop sg (nm @ [CHR ''='']) (init_locals m) = Next st1"
    and m1: "mode st1 = parse_skip_space_after_equal" and n1: "c_str (param_name st1) = nm"
    and b1: "bufs_ok st1" and r1: "ret st1 = m"
    using loop_name_equal[OF _ _ assms(1,2), of "init_locals m" sg] by auto
  obtain st2 where 2: "loop sg (c # cs @ [t]) st1 = Next st2"
    and r2: "ret st2 = insert_pair (c_str (param_name st1)) (c_str (c # cs)) (ret st1)"
    using loop_value_unquoted[OF m1 b1 _ _ _ assms(5), of sg c cs] assms(3,4) v by auto
  have "loop sg ((nm @ [CHR ''='']) @ (c # cs @ [t])) (init_locals m) = Next st2"
    unfolding loop_append_Next[OF 1] by (rule 2)
  then have "loop sg (nm @ CHR ''='' # v @ [t]) (init_locals m) = Next st2"
    using v by simp
  then show ?thesis
    using r2 n1 r1 v by (simp add: parse_config_Next)
qed

lemma parse_assign_quoted:
  assumes "valid_name nm" "length nm \<le> CONF_PARAM_NAME_MAX_LEN - 1"
    "(md = parse_value_in_single_quote \<and> q = SQUOTE) \<or> (md = parse_value_in_double_quote \<and> q = DQUOTE)"
    "list_all (accum_char sg md) v" "length v \<le> CONF_PARAM_VALUE_MAX_LEN - 1"
  shows "parse_config sg (Some (nm @ CHR ''='' # q # v @ [q])) (Some m) = (0, Some (insert_pair nm (c_str v) m))"
proof -
  obtain st1 where 1: "loop sg (nm @ [CHR ''='']) (init_locals m) = Next st1"
    and m1: "mode st1 = parse_skip_space_after_equal" and n1: "c_str (param_name st1) = nm"
    and b1: "bufs_ok st1" and r1: "ret st1 = m"
    using loop_name_equal[OF _ _ assms(1,2), of "init_locals m" sg] by auto
  obtain st2 where 2: "loop sg (q # v @ [q]) st1 = Next st2"
    and r2: "ret st2 = insert_pair (c_str (param_name st1)) (c_str v) (ret st1)"
    using loop_value_quoted[OF m1 b1 assms(3,4,5)] by auto
  have "loop sg ((nm @ [CHR ''='']) @ (q # v @ [q])) (init_locals m) = Next st2"
    unfolding loop_append_Next[OF 1] by (rule 2)
  then have "loop sg (nm @ CHR ''='' # q # v @ [q]) (init_locals m) = Next st2"
    by simp
  then show ?thesis
    using r2 n1 r1 by (simp add: parse_config_Next)
qed

subsection \<open>Texts that do not fit the arrays\<close>

lemma valid_name_take: "valid_name nm \<Longrightarrow> 0 < n \<Longrightarrow> valid_name (take n nm)"
  by (cases nm; cases n) (auto simp: list_all_iff dest: in_set_takeD)

lemma valid_name_nth: "valid_name nm \<Longrightarrow> i < length nm \<Longrightarrow> name_char (nm ! i)"
  by (cases nm; cases i) (auto simp: list_all_iff isalpha_facts)

lemma loop_name_overflow:
  assumes "mode st = parse_skip_space" "bufs_ok st" "valid_name nm"
    "CONF_PARAM_NAME_MAX_LEN \<le> length nm"
  shows "\<exists>st'. loop sg (nm @ rest) st = Return CONFERR_WRONGPARAM st' \<and> ret st' = Map.empty"
proof -
  let ?n = "CONF_PARAM_NAME_MAX_LEN - 1"
  let ?p = "take ?n nm"
  let ?x = "nm ! ?n"
  have n: "?n < length nm" "0 < ?n" using assms(4) by (simp_all add: CONF_PARAM_NAME_MAX_LEN_def)
  have lp: "length ?p = ?n" using n by simp
  have split: "nm = ?p @ ?x # drop (Suc ?n) nm" using n(1) by (simp add: id_take_nth_drop[symmetric])
  let ?st1 = "st\<lparr> param_name := ?p @ drop (length ?p) (param_name st),
               name_fill := length ?p, mode := parse_param_name \<rparr>"
  have 1: "loop sg ?p st = Next ?st1"
    by (rule loop_name[OF assms(1,2)]) (use valid_name_take[OF assms(3) n(2)] lp in simp_all)
  have 2: "step sg ?x ?st1 = Return CONFERR_WRONGPARAM
       (?st1\<lparr> param_name := (param_name ?st1)[name_fill ?st1 := ?x], ret := Map.empty \<rparr>)"
    by (rule step_name_char_overflow) (use valid_name_nth[OF assms(3) n(1)] lp in simp_all)
  have 3: "loop sg ((?p @ ?x # drop (Suc ?n) nm) @ rest) st = Return CONFERR_WRONGPARAM
       (?st1\<lparr> param_name := (param_name ?st1)[name_fill ?st1 := ?x], ret := Map.empty \<rparr>)"
    using loop_append_Return[OF 1 2] by simp
  show ?thesis
    using 3 unfolding split[symmetric] by simp
qed

lemma unquoted_value_take: "unquoted_value sg v \<Longrightarrow> 0 < n \<Longrightarrow> unquoted_value sg (take n v)"
  by (cases v; cases n) (auto simp: list_all_iff dest: in_set_takeD)

lemma value_start_accum: "value_start sg c \<Longrightarrow> accum_char sg parse_value c"
  by (simp add: value_start_def accum_char_def)

lemma unquoted_value_nth:
  "unquoted_value sg v \<Longrightarrow> i < length v \<Longrightarrow> accum_char sg parse_value (v ! i)"
  by (cases v; cases i) (auto simp: list_all_iff value_start_accum)

lemma loop_value_overflow:
  assumes "mode st = parse_skip_space_after_equal" "bufs_ok st" "unquoted_value sg v"
    "CONF_PARAM_VALUE_MAX_LEN \<le> length v"
  shows "\<exists>st'. loop sg (v @ rest) st = Return CONFERR_WRONGVALUE st' \<and> ret st' = Map.empty"
proof -
  let ?n = "CONF_PARAM_VALUE_MAX_LEN - 1"
  let ?p = "take ?n v"
  let ?x = "v ! ?n"
  have n: "?n < length v" "0 < ?n" using assms(4) by (simp_all add: CONF_PARAM_VALUE_MAX_LEN_def)
  have lp: "length ?p = ?n" using n by simp
  have split: "v = ?p @ ?x # drop (Suc ?n) v" using n(1) by (simp add: id_take_nth_drop[symmetric])
  have up: "unquoted_value sg ?p" by (rule unquoted_value_take[OF assms(3) n(2)])
  obtain c cs where p: "?p = c # cs"
  proof (cases ?p)
    case Nil
    from up[unfolded Nil] show ?thesis by simp
  next
    case (Cons c cs)
    then show ?thesis using that by blast
  qed
  have lcs: "length (c # cs) = ?n" unfolding p[symmetric] by (rule lp)
  have ucs: "unquoted_value sg (c # cs)" unfolding p[symmetric] by (rule up)
  let ?st1 = "st\<lparr> param_value := (c # cs) @ drop (length (c # cs)) (param_value st),
               value_fill := length (c # cs), mode := parse_value \<rparr>"
  have 1: "loop sg ?p st = Next ?st1"
    unfolding p by (rule loop_value_chars[OF assms(1,2)]) (use ucs lcs in simp_all)
  have "\<exists>st'. step sg ?x ?st1 = Return CONFERR_WRONGVALUE st' \<and> ret st' = Map.empty"
    by (rule step_accum_overflow[where md = parse_value])
       (use unquoted_value_nth[OF assms(3) n(1)] lcs in simp_all)
  then obtain st' where 2: "step sg ?x ?st1 = Return CONFERR_WRONGVALUE st'" and r: "ret st' = Map.empty"
    by blast
  have "loop sg ((?p @ ?x # drop (Suc ?n) v) @ rest) st = Return CONFERR_WRONGVALUE st'"
    using loop_append_Return[OF 1 2] by simp
  then show ?thesis
    using r unfolding split[symmetric] by blast
qed

lemma loop_quoted_overflow:
  assumes "mode st = parse_skip_space_after_equal" "bufs_ok st"
    "(md = parse_value_in_single_quote \<and> q = SQUOTE) \<or> (md = parse_value_in_double_quote \<and> q = DQUOTE)"
    "list_all (accum_char sg md) v" "CONF_PARAM_VALUE_MAX_LEN \<le> length v"
  shows "\<exists>st'. loop sg (q # v @ rest) st = Return CONFERR_WRONGVALUE st' \<and> ret st' = Map.empty"
proof -
  let ?n = "CONF_PARAM_VALUE_MAX_LEN - 1"
  let ?p = "take ?n v"
  let ?x = "v ! ?n"
  have n: "?n < length v" using assms(5) by (simp_all add: CONF_PARAM_VALUE_MAX_LEN_def)
  have lp: "length ?p = ?n" using n by simp
  have split: "v = ?p @ ?x # drop (Suc ?n) v" using n by (simp add: id_take_nth_drop[symmetric])
  have lb: "length (param_value st) = CONF_PARAM_VALUE_MAX_LEN" using assms(2) by (simp add: bufs_ok_def)
  let ?st0 = "st\<lparr> mode := md, value_fill := 0 \<rparr>"
  let ?st1 = "?st0\<lparr> line := line ?st0 + newlines ?p,
               param_value := take (value_fill ?st0) (param_value ?st0) @ ?p
                    @ drop (value_fill ?st0 + length ?p) (param_value ?st0),
               value_fill := value_fill ?st0 + length ?p \<rparr>"
  have 0: "step sg q st = Next ?st0"
    using assms(3) step_after_equal_quote[OF assms(1)] by auto
  have ap: "list_all (accum_char sg md) ?p"
    using assms(4) by (auto simp: list_all_iff dest: in_set_takeD)
  have ax: "accum_char sg md ?x"
    using assms(4) n by (simp add: list_all_length)
  have 1: "loop sg ?p ?st0 = Next ?st1"
    by (rule loop_accum[where md = md]) (use ap lp lb in simp_all)
  have "\<exists>st'. step sg ?x ?st1 = Return CONFERR_WRONGVALUE st' \<and> ret st' = Map.empty"
    by (rule step_accum_overflow[where md = md]) (use ax lp in simp_all)
  then obtain st' where 2: "step sg ?x ?st1 = Return CONFERR_WRONGVALUE st'" and r: "ret st' = Map.empty"
    by blast
  have "loop sg ((?p @ ?x # drop (Suc ?n) v) @ rest) ?st0 = Return CONFERR_WRONGVALUE st'"
    using loop_append_Return[OF 1 2] by simp
  then have "loop sg (q # v @ rest) st = Return CONFERR_WRONGVALUE st'"
    unfolding split[symmetric] loop_Cons_Next[OF 0] .
  then show ?thesis using r by blast
qed

lemma parse_name_overflow:
  assumes "valid_name nm" "CONF_PARAM_NAME_MAX_LEN \<le> length nm"
  shows "parse_config sg (Some (nm @ rest)) (Some m) = (CONFERR_WRONGPARAM, Some Map.empty)"
  using loop_name_overflow[OF _ _ assms, of "init_locals m" sg rest]
  by (auto simp: parse_config_Return)

lemma parse_value_overflow:
  assumes "valid_name nm" "length nm \<le> CONF_PARAM_NAME_MAX_LEN - 1"
    "unquoted_value sg v" "CONF_PARAM_VALUE_MAX_LEN \<le> length v"
  shows "parse_config sg (Some (nm @ CHR ''='' # v @ rest)) (Some m) = (CONFERR_WRONGVALUE, Some Map.empty)"
proof -
  obtain st1 where 1: "loop sg (nm @ [CHR ''='']) (init_locals m) = Next st1"
    and m1: "mode st1 = parse_skip_space_after_equal" and b1: "bufs_ok st1"
    using loop_name_equal[OF _ _ assms(1,2), of "init_locals m" sg] by auto
  obtain st' where 2: "loop sg (v @ rest) st1 = Return CONFERR_WRONGVALUE st'" and r: "ret st' = Map.empty"
    using loop_value_overflow[OF m1 b1 assms(3,4)] by blast
  have "loop sg ((nm @ [CHR ''='']) @ (v @ rest)) (init_locals m) = Return CONFERR_WRONGVALUE st'"
    unfolding loop_append_Next[OF 1] by (rule 2)
  then show ?thesis using r by (simp add: parse_config_Return)
qed

lemma parse_quoted_overflow:
  assumes "valid_name nm" "length nm \<le> CONF_PARAM_NAME_MAX_LEN - 1"
    "(md = parse_value_in_single_quote \<and> q = SQUOTE) \<or> (md = parse_value_in_double_quote \<and> q = DQUOTE)"
    "list_all (accum_char sg md) v" "CONF_PARAM_VALUE_MAX_LEN \<le> length v"
  shows "parse_config sg (Some (nm @ CHR ''='' # q # v @ rest)) (Some m) = (CONFERR_WRONGVALUE, Some Map.empty)"
proof -
  obtain st1 where 1: "loop sg (nm @ [CHR ''='']) (init_locals m) = Next st1"
    and m1: "mode st1 = parse_skip_space_after_equal" and b1: "bufs_ok st1"
    using loop_name_equal[OF _ _ assms(1,2), of "init_locals m" sg] by auto
  obtain st' where 2: "loop sg (q # v @ rest) st1 = Return CONFERR_WRONGVALUE st'" and r: "ret st' = Map.empty"
    using loop_quoted_overflow[OF m1 b1 assms(3,4,5)] by blast
  have "loop sg ((nm @ [CHR ''='']) @ (q # v @ rest)) (init_locals m) = Return CONFERR_WRONGVALUE st'"
    unfolding loop_append_Next[OF 1] by (rule 2)
  then show ?thesis using r by (simp add: parse_config_Return)
qed

subsection \<open>Errors\<close>

lemma step_Return:
  assumes "step sg c st = Return code st'"
  shows "ret st' = Map.empty"
    and "code = CONFERR_WRONGSYNTAX \<or> code = CONFERR_WRONGPARAM \<or> code = CONFERR_WRONGVALUE"
  using assms by (cases "mode st"; simp add: step_def split: if_splits; fastforce)+

lemma loop_Return_split:
  "loop sg inp st = Return code st' \<Longrightarrow>
   \<exists>pre c post st1. inp = pre @ c # post \<and> loop sg pre st = Next st1 \<and> step sg c st1 = Return code st'"
proof (induction inp arbitrary: st)
  case Nil
  then show ?case by simp
next
  case (Cons x xs)
  show ?case
  proof (cases "step sg x st")
    case (Next s)
    then have "loop sg xs s = Return code st'" using Cons.prems by simp
    then obtain pre c post st1 where "xs = pre @ c # post" "loop sg pre s = Next st1"
      "step sg c st1 = Return code st'"
      using Cons.IH by blast
    then have "x # xs = (x # pre) @ c # post \<and> loop sg (x # pre) st = Next st1
        \<and> step sg c st1 = Return code st'"
      using Next by simp
    then show ?thesis by blast
  next
    case (Break s)
    then show ?thesis using Cons.prems by simp
  next
    case (Return code' s)
    then have "x # xs = [] @ x # xs \<and> loop sg [] st = Next st \<and> step sg x st = Return code st'"
      using Cons.prems by simp
    then show ?thesis by blast
  qed
qed

lemma error_codes_nonzero:
  "CONFERR_WRONGSYNTAX \<noteq> 0" "CONFERR_WRONGPARAM \<noteq> 0" "CONFERR_WRONGVALUE \<noteq> 0"
  by (simp_all add: CONFERR_WRONGSYNTAX_def CONFERR_WRONGPARAM_def CONFERR_WRONGVALUE_def)

lemma loop_Return_nonzero: "loop sg inp st = Return code st' \<Longrightarrow> code \<noteq> 0"
  using loop_Return_split[of sg inp st code st'] step_Return(2) error_codes_nonzero by metis

subsection \<open>What a commit leaves alone\<close>

lemma insert_pair_keeps: "m k = Some v \<Longrightarrow> insert_pair k' v' m k = Some v"
  by (auto simp: insert_pair_def split: option.splits)

lemma insert_pair_present: "m k = Some v \<Longrightarrow> insert_pair k v' m = m"
  by (simp add: insert_pair_def)

lemma step_keeps:
  assumes "step sg c st = Next st' \<or> step sg c st = Break st'" "ret st k = Some v"
  shows "ret st' k = Some v"
  using assms
  by (cases "mode st"; simp add: step_def insert_ret_def split: if_splits; fastforce simp: insert_pair_keeps)+

lemma loop_keeps:
  "loop sg cs st = Next st' \<or> loop sg cs st = Break st' \<Longrightarrow> ret st k = Some v \<Longrightarrow> ret st' k = Some v"
proof (induction cs arbitrary: st)
  case Nil
  then show ?case by simp
next
  case (Cons x xs)
  show ?case
  proof (cases "step sg x st")
    case (Next s)
    then have "ret s k = Some v" using step_keeps Cons.prems(2) by blast
    moreover have "loop sg xs s = Next st' \<or> loop sg xs s = Break st'" using Cons.prems(1) Next by simp
    ultimately show ?thesis using Cons.IH by blast
  next
    case (Break s)
    then have "s = st'" using Cons.prems(1) by simp
    then show ?thesis using step_keeps Break Cons.prems(2) by blast
  next
    case (Return code' s)
    then show ?thesis using Cons.prems(1) by simp
  qed
qed

subsection \<open>The line counter and the map do not steer the scanner\<close>

lemma step_shift: "step sg c (shift_line d st) = shift_outcome d (step sg c st)"
  by (cases "mode st") (simp_all add: step_def shift_line_def insert_ret_def)

lemma loop_shift: "loop sg cs (shift_line d st) = shift_outcome d (loop sg cs st)"
proof (induction cs arbitrary: st)
  case Nil
  then show ?case by simp
next
  case (Cons x xs)
  then show ?case by (cases "step sg x st") (simp_all add: step_shift)
qed

lemma step_erased:
  "step sg c st = Next s \<Longrightarrow>
   \<exists>s2. step sg c (st\<lparr> ret := Map.empty \<rparr>) = Next s2 \<and> s2\<lparr> ret := Map.empty \<rparr> = s\<lparr> ret := Map.empty \<rparr>"
  "step sg c st = Break s \<Longrightarrow> \<exists>s2. step sg c (st\<lparr> ret := Map.empty \<rparr>) = Break s2"
  "step sg c st = Return code s \<Longrightarrow> \<exists>s2. step sg c (st\<lparr> ret := Map.empty \<rparr>) = Return code s2"
  by (cases "mode st"; simp add: step_def insert_ret_def split: if_splits; fastforce)+

lemma loop_status: "status (loop sg cs (st\<lparr> ret := Map.empty \<rparr>)) = status (loop sg cs st)"
proof (induction cs arbitrary: st)
  case Nil
  then show ?case by simp
next
  case (Cons x xs)
  show ?case
  proof (cases "step sg x st")
    case (Next s)
    then obtain s2 where 2: "step sg x (st\<lparr> ret := Map.empty \<rparr>) = Next s2"
      and e: "s2\<lparr> ret := Map.empty \<rparr> = s\<lparr> ret := Map.empty \<rparr>"
      using step_erased(1) by blast
    have "status (loop sg xs s2) = status (loop sg xs (s2\<lparr> ret := Map.empty \<rparr>))"
      using Cons.IH[of s2] by simp
    also have "\<dots> = status (loop sg xs s)" unfolding e by (rule Cons.IH)
    finally show ?thesis using Next 2 by simp
  next
    case (Break s)
    then obtain s2 where "step sg x (st\<lparr> ret := Map.empty \<rparr>) = Break s2"
      using step_erased(2) by blast
    then show ?thesis using Break by simp
  next
    case (Return code' s)
    then obtain s2 where "step sg x (st\<lparr> ret := Map.empty \<rparr>) = Return code' s2"
      using step_erased(3) by blast
    then show ?thesis using Return by simp
  qed
qed

lemma parse_config_status:
  "fst (parse_config sg (Some cs) (Some m)) = status (loop sg cs (init_locals m))"
  by (simp add: parse_config_def split: outcome.splits)

lemma init_locals_erased: "(init_locals m)\<lparr> ret := Map.empty \<rparr> = init_locals Map.empty"
  by (simp add: init_locals_def)

lemma status_independent_of_map:
  "fst (parse_config sg (Some cs) (Some m)) = fst (parse_config sg (Some cs) (Some Map.empty))"
  using loop_status[of sg cs "init_locals m"] by (simp add: parse_config_status init_locals_erased)

subsection \<open>The indices stay in the arrays\<close>

lemma step_in_bounds:
  assumes "in_bounds st" "step sg c st = Next st'"
  shows "in_bounds st'"
  using assms
  by (cases "mode st";
      simp add: step_def in_bounds_def bufs_ok_def insert_ret_def split: if_splits;
      fastforce simp: CONF_PARAM_NAME_MAX_LEN_def CONF_PARAM_VALUE_MAX_LEN_def)+

lemma loop_in_bounds:
  "in_bounds st \<Longrightarrow> loop sg cs st = Next st' \<Longrightarrow> in_bounds st'"
proof (induction cs arbitrary: st)
  case Nil
  then show ?case by simp
next
  case (Cons x xs)
  then show ?case
    by (cases "step sg x st") (auto dest: step_in_bounds)
qed

lemma init_in_bounds: "in_bounds (init_locals m)"
  by (simp add: in_bounds_def)

lemma reachable_bounds: "loop sg cs (init_locals m) = Next st \<Longrightarrow> in_bounds st"
  using loop_in_bounds[OF init_in_bounds] .

lemma c_str_update_take: "k < length b \<Longrightarrow> c_str (b[k := NUL]) = c_str (take k b)"
  by (simp add: upd_conv_take_nth_drop c_str_append_NUL)

subsection \<open>More single iterations\<close>

lemma step_EOF:
  "char_to_int sg e = EOF \<Longrightarrow>
   step sg e st =
     (if mode st = parse_value_in_single_quote \<or> mode st = parse_value_in_double_quote
      then Break (insert_ret (st\<lparr> param_value := (param_value st)[value_fill st := NUL] \<rparr>))
      else Break st)"
  by (simp add: step_def)

lemma step_line_end_other:
  "mode st = parse_line_end \<Longrightarrow> \<not> isspace c \<Longrightarrow> c \<noteq> CHR ''#'' \<Longrightarrow> char_to_int sg c \<noteq> EOF \<Longrightarrow>
   step sg c st = Return CONFERR_WRONGSYNTAX (st\<lparr> ret := Map.empty \<rparr>)"
  by (simp add: step_def)

lemma step_skip_space_other:
  "mode st = parse_skip_space \<Longrightarrow> \<not> isalpha c \<Longrightarrow> \<not> isspace c \<Longrightarrow> c \<noteq> CHR ''#'' \<Longrightarrow>
   char_to_int sg c \<noteq> EOF \<Longrightarrow>
   step sg c st = Return CONFERR_WRONGPARAM (st\<lparr> ret := Map.empty \<rparr>)"
  using fixed_chars(5) by (auto simp: step_def)

lemma step_before_equal_other:
  "mode st = parse_skip_space_before_equal \<Longrightarrow> c \<noteq> CHR ''='' \<Longrightarrow> char_to_int sg c \<noteq> EOF \<Longrightarrow>
   step sg c st = Next (shift_line (if c = NL then 1 else 0) st)"
  using fixed_chars(5) by (auto simp: step_def shift_line_def)

lemma shift_line_facts [simp]:
  "mode (shift_line d st) = mode st" "ret (shift_line d st) = ret st"
  "shift_line a (shift_line b st) = shift_line (b + a) st" "shift_line 0 st = st"
  by (simp_all add: shift_line_def)

lemma loop_before_equal:
  assumes "mode st = parse_skip_space_before_equal" "CHR ''='' \<notin> set junk"
    "\<forall>c\<in>set junk. char_to_int sg c \<noteq> EOF"
  shows "loop sg junk st = Next (shift_line (newlines junk) st)"
  using assms
proof (induction junk arbitrary: st)
  case Nil
  then show ?case by simp
next
  case (Cons x xs)
  have 1: "step sg x st = Next (shift_line (if x = NL then 1 else 0) st)"
    by (rule step_before_equal_other) (use Cons.prems in auto)
  have "loop sg xs (shift_line (if x = NL then 1 else 0) st)
        = Next (shift_line (newlines xs) (shift_line (if x = NL then 1 else 0) st))"
    by (rule Cons.IH) (use Cons.prems in auto)
  then show ?case unfolding loop_Cons_Next[OF 1] by simp
qed

lemma loop_after_equal_spaces:
  assumes "mode st = parse_skip_space_after_equal" "list_all isspace ws"
  shows "loop sg ws st = Next (shift_line (newlines ws) st)"
  using assms
proof (induction ws arbitrary: st)
  case Nil
  then show ?case by simp
next
  case (Cons x xs)
  have 1: "step sg x st = Next (shift_line (if x = NL then 1 else 0) st)"
    using step_after_equal_space[of st x sg] Cons.prems by (simp add: shift_line_def)
  have "loop sg xs (shift_line (if x = NL then 1 else 0) st)
        = Next (shift_line (newlines xs) (shift_line (if x = NL then 1 else 0) st))"
    by (rule Cons.IH) (use Cons.prems in auto)
  then show ?case unfolding loop_Cons_Next[OF 1] by simp
qed

lemma parse_config_shift:
  assumes "loop sg xs (init_locals m) = loop sg ys (shift_line d st)"
    and "loop sg zs (init_locals m) = loop sg ys st"
  shows "parse_config sg (Some xs) (Some m) = parse_config sg (Some zs) (Some m)"
  unfolding parse_config_def using assms
  by (cases "loop sg ys st") (simp_all add: loop_shift)

lemma shift_line_bufs [simp]:
  "param_name (shift_line d st) = param_name st" "bufs_ok (shift_line d st) = bufs_ok st"
  by (simp_all add: shift_line_def bufs_ok_def)

subsection \<open>The first commit of a name\<close>

lemma insert_pair_absent: "m k = None \<Longrightarrow> insert_pair k v m = m(k \<mapsto> v)"
  by (simp add: insert_pair_def)

lemma step_commit:
  assumes "in_bounds st"
    and "(mode st = parse_skip_space_after_equal \<and> c = CHR ''#'')
       \<or> (mode st = parse_value \<and> (isspace c \<or> c = CHR ''#''))
       \<or> (mode st = parse_value_in_single_quote \<and> c = SQUOTE)
       \<or> (mode st = parse_value_in_double_quote \<and> c = DQUOTE)"
  shows "\<exists>st'. step sg c st = Next st'
           \<and> ret st' = insert_pair (c_str (param_name st))
                (if mode st = parse_skip_space_after_equal then []
                 else c_str (take (value_fill st) (param_value st))) (ret st)"
proof -
  have lv: "length (param_value st) = CONF_PARAM_VALUE_MAX_LEN"
    using assms(1) by (simp add: in_bounds_def bufs_ok_def)
  consider (h) "mode st = parse_skip_space_after_equal" "c = CHR ''#''"
    | (v) "mode st = parse_value" "isspace c \<or> c = CHR ''#''"
    | (s) "mode st = parse_value_in_single_quote" "c = SQUOTE"
    | (d) "mode st = parse_value_in_double_quote" "c = DQUOTE"
    using assms(2) by blast
  then show ?thesis
  proof cases
    case h
    have "c_str ((param_value st)[0 := NUL]) = c_str (take 0 (param_value st))"
      by (rule c_str_update_take) (simp add: lv CONF_PARAM_VALUE_MAX_LEN_def)
    then show ?thesis
      using h by (simp add: step_after_equal_hash insert_ret_def c_str_def)
  next
    case v
    have "c_str ((param_value st)[value_fill st := NUL]) = c_str (take (value_fill st) (param_value st))"
      by (rule c_str_update_take) (use assms(1) v lv in \<open>simp add: in_bounds_def\<close>)
    then show ?thesis
      using v by (simp add: step_value_end insert_ret_def)
  next
    case s
    have "c_str ((param_value st)[value_fill st := NUL]) = c_str (take (value_fill st) (param_value st))"
      by (rule c_str_update_take) (use assms(1) s lv in \<open>simp add: in_bounds_def\<close>)
    then show ?thesis
      using s by (simp add: step_quote_end insert_ret_def)
  next
    case d
    have "c_str ((param_value st)[value_fill st := NUL]) = c_str (take (value_fill st) (param_value st))"
      by (rule c_str_update_take) (use assms(1) d lv in \<open>simp add: in_bounds_def\<close>)
    then show ?thesis
      using d by (simp add: step_quote_end insert_ret_def)
  qed
qed

lemma parse_config_keeps:
  assumes "loop sg pre (init_locals m) = Next st" and "ret st k = Some v"
    and "parse_config sg (Some (pre @ post)) (Some m) = (0, Some m2)"
  shows "m2 k = Some v"
proof -
  have a: "loop sg (pre @ post) (init_locals m) = loop sg post st"
    by (rule loop_append_Next[OF assms(1)])
  show ?thesis
  proof (cases "loop sg post st")
    case (Next st2)
    then have "m2 = ret st2" using assms(3) a by (simp add: parse_config_def)
    then show ?thesis using loop_keeps[of sg post st st2 k v] Next assms(2) by simp
  next
    case (Break st2)
    then have "m2 = ret st2" using assms(3) a by (simp add: parse_config_def)
    then show ?thesis using loop_keeps[of sg post st st2 k v] Break assms(2) by simp
  next
    case (Return code st2)
    then have "code = 0" using assms(3) a by (simp add: parse_config_def)
    then show ?thesis using loop_Return_nonzero[OF Return] by simp
  qed
qed

lemma first_commit_stored:
  assumes "loop sg pre (init_locals m) = Next st"
    and "(mode st = parse_skip_space_after_equal \<and> c = CHR ''#'')
       \<or> (mode st = parse_value \<and> (isspace c \<or> c = CHR ''#''))
       \<or> (mode st = parse_value_in_single_quote \<and> c = SQUOTE)
       \<or> (mode st = parse_value_in_double_quote \<and> c = DQUOTE)"
    and "ret st (c_str (param_name st)) = None"
    and "parse_config sg (Some (pre @ c # post)) (Some m) = (0, Some m3)"
  shows "m3 (c_str (param_name st))
         = Some (if mode st = parse_skip_space_after_equal then []
                 else c_str (take (value_fill st) (param_value st)))"
proof -
  let ?val = "if mode st = parse_skip_space_after_equal then []
                 else c_str (take (value_fill st) (param_value st))"
  obtain st' where 1: "step sg c st = Next st'"
    and r: "ret st' = insert_pair (c_str (param_name st)) ?val (ret st)"
    using step_commit[OF reachable_bounds[OF assms(1)] assms(2), of sg] by blast
  have 2: "loop sg (pre @ [c]) (init_locals m) = Next st'"
    unfolding loop_snoc_Next[OF assms(1)] by (rule 1)
  have 3: "ret st' (c_str (param_name st)) = Some ?val"
    unfolding r using insert_pair_absent[of "ret st" "c_str (param_name st)" ?val] assms(3) by simp
  have 4: "parse_config sg (Some ((pre @ [c]) @ post)) (Some m) = (0, Some m3)"
    using assms(4) by simp
  show ?thesis by (rule parse_config_keeps[OF 2 3 4])
qed

subsection \<open>Evaluating the scanner on a given text\<close>

lemma replicate_numeral: "replicate (numeral k) x = x # replicate (pred_numeral k) x"
  by (simp add: numeral_eq_Suc)

lemma list_update_Cons_numeral: "(x # xs)[numeral k := y] = x # xs[pred_numeral k := y]"
  by (simp add: numeral_eq_Suc)

lemmas eval_defs = parse_config_def init_locals_def step_def insert_ret_def insert_pair_def c_str_def
  char_to_int_def EOF_def isalpha_def isspace_def isdigit_def CONF_PARAM_NAME_MAX_LEN_def
  CONF_PARAM_VALUE_MAX_LEN_def CONFERR_WRONGPARAM_def CONFERR_WRONGSYNTAX_def
  CONFERR_WRONGVALUE_def replicate_numeral list_update_Cons_numeral

section \<open>The claims\<close>

text \<open>
  C1. The claim: when the stream ends inside a quoted value, the value read so far is
  committed, so that \<^verbatim>\<open>key = 'unterminated\<close> gives the map \<open>key \<mapsto> unterminated\<close>.
  The code does not do this: the loop ends when \<^verbatim>\<open>fconf.get(c)\<close> fails, the test
  \<^verbatim>\<open>c == EOF\<close> inside the loop is never reached for the end of the stream, and the
  function returns 0 with nothing committed.
\<close>

theorem unterminated_quote_at_end_of_stream:
  "parse_config sg (Some (''key = '' @ [SQUOTE] @ ''unterminated'')) (Some Map.empty)
     = (0, Some Map.empty)"
  by (simp add: eval_defs)

text \<open>
  C2. Whenever \<^verbatim>\<open>parse_config\<close> returns a code other than 0 for a file that could be
  opened and a map that was given, the code is one of \<^verbatim>\<open>WRONG_SYNTAX\<close>,
  \<^verbatim>\<open>WRONG_PARAM\<close>, \<^verbatim>\<open>WRONG_VALUE\<close>, the map is empty, and the scan was aborted at one
  character of the text: the characters before it were scanned without error, the
  iteration for it returned the code, and whatever follows it is never read (any other
  text after it gives the same code and the empty map).
\<close>

theorem parse_error_clears_map:
  assumes "parse_config sg (Some inp) (Some m) = (code, r)" and "code \<noteq> 0"
  shows "r = Some Map.empty
       \<and> (code = CONFERR_WRONGSYNTAX \<or> code = CONFERR_WRONGPARAM \<or> code = CONFERR_WRONGVALUE)
       \<and> (\<exists>pre c post st st'. inp = pre @ c # post
             \<and> loop sg pre (init_locals m) = Next st \<and> step sg c st = Return code st'
             \<and> (\<forall>post'. parse_config sg (Some (pre @ c # post')) (Some m) = (code, Some Map.empty)))"
proof (cases "loop sg inp (init_locals m)")
  case (Next st)
  then show ?thesis using assms by (simp add: parse_config_def)
next
  case (Break st)
  then show ?thesis using assms by (simp add: parse_config_def)
next
  case (Return code' st')
  then have c: "code' = code" and r: "r = Some (ret st')"
    using assms(1) by (simp_all add: parse_config_def)
  obtain pre x post st1 where inp: "inp = pre @ x # post"
    and 1: "loop sg pre (init_locals m) = Next st1" and 2: "step sg x st1 = Return code st'"
    using loop_Return_split[OF Return[unfolded c]] by blast
  have e: "ret st' = Map.empty" by (rule step_Return(1)[OF 2])
  have "parse_config sg (Some (pre @ x # post')) (Some m) = (code, Some Map.empty)" for post'
    using loop_append_Return[OF 1 2, of post'] e by (simp add: parse_config_Return)
  then show ?thesis
    using r e step_Return(2)[OF 2] inp 1 2 by blast
qed

theorem parse_error_clears_map_witness:
  "parse_config True (Some (''a=1'' @ [NL] @ ''bad-name = x'')) (Some Map.empty)
      = (CONFERR_WRONGPARAM, Some Map.empty)
   \<and> (\<exists>pre c post st st'. ''a=1'' @ [NL] @ ''bad-name = x'' = pre @ c # post
         \<and> loop True pre (init_locals Map.empty) = Next st
         \<and> step True c st = Return CONFERR_WRONGPARAM st'
         \<and> (\<forall>post'. parse_config True (Some (pre @ c # post')) (Some Map.empty)
                = (CONFERR_WRONGPARAM, Some Map.empty)))"
proof -
  have e: "parse_config True (Some (''a=1'' @ [NL] @ ''bad-name = x'')) (Some Map.empty)
      = (CONFERR_WRONGPARAM, Some Map.empty)"
    by (simp add: eval_defs)
  show ?thesis
    using parse_error_clears_map[OF e] e by (simp add: CONFERR_WRONGPARAM_def)
qed

text \<open>
  C3. The commit is \<open>insert_pair\<close>: it stores the pair when the map has no entry for
  the name and leaves the map as it is otherwise. For every input:
  the first commit of a name is stored and stays. When the scanner, after any text
  \<open>pre'\<close>, reads a character that commits (one of the four \<^verbatim>\<open>insert\<close> calls of the
  switch: \<^verbatim>\<open>#\<close> after \<^verbatim>\<open>=\<close>, the end of an unquoted value, a closing quote) and the map
  has no entry for the name in \<^verbatim>\<open>param_name\<close>, then after every longer text that is
  parsed with success the map has that name with the value read up to that character,
  whatever comes later, the same name with other values included.
  Once a name has a value in the map (after any part \<open>pre\<close> of the text, or from the
  caller), it has the same value after every longer text that is parsed with success,
  and a commit of that name changes nothing. The code that \<^verbatim>\<open>parse_config\<close> returns
  does not depend on what the map holds: a name that comes again is no error.
\<close>

theorem first_occurrence_wins:
  assumes "loop sg pre' (init_locals m') = Next st"
    and "(mode st = parse_skip_space_after_equal \<and> c = CHR ''#'')
       \<or> (mode st = parse_value \<and> (isspace c \<or> c = CHR ''#''))
       \<or> (mode st = parse_value_in_single_quote \<and> c = SQUOTE)
       \<or> (mode st = parse_value_in_double_quote \<and> c = DQUOTE)"
    and "ret st (c_str (param_name st)) = None"
    and "parse_config sg (Some (pre' @ c # post')) (Some m') = (0, Some m3)"
    and "parse_config sg (Some pre) (Some m) = (0, Some m1)" and "m1 k = Some v"
    and "parse_config sg (Some (pre @ post)) (Some m) = (0, Some m2)"
  shows "m3 (c_str (param_name st))
           = Some (if mode st = parse_skip_space_after_equal then []
                   else c_str (take (value_fill st) (param_value st)))
       \<and> insert_pair k' v' (ret st) k' = Some (case ret st k' of None \<Rightarrow> v' | Some old \<Rightarrow> old)
       \<and> m2 k = Some v \<and> insert_pair k v2 m1 = m1
       \<and> fst (parse_config sg (Some cs) (Some m1)) = fst (parse_config sg (Some cs) (Some Map.empty))"
proof -
  have a: "m3 (c_str (param_name st))
           = Some (if mode st = parse_skip_space_after_equal then []
                   else c_str (take (value_fill st) (param_value st)))"
    by (rule first_commit_stored[OF assms(1-4)])
  have b: "insert_pair k' v' (ret st) k' = Some (case ret st k' of None \<Rightarrow> v' | Some old \<Rightarrow> old)"
    by (simp add: insert_pair_def split: option.splits)
  have "m2 k = Some v"
  proof (cases "loop sg pre (init_locals m)")
    case (Next st1)
    then have "ret st1 k = Some v" using assms(5,6) by (simp add: parse_config_def)
    then show ?thesis by (rule parse_config_keeps[OF Next _ assms(7)])
  next
    case (Break st1)
    then have "loop sg (pre @ post) (init_locals m) = Break st1" by (simp add: loop_append)
    then show ?thesis using assms(5,6,7) Break by (simp add: parse_config_def)
  next
    case (Return code st1)
    then have "code = 0" using assms(5) by (simp add: parse_config_def)
    then show ?thesis using loop_Return_nonzero[OF Return] by simp
  qed
  then show ?thesis
    using a b insert_pair_present[of m1 k v v2, OF assms(6)] status_independent_of_map[of sg cs m1]
    by blast
qed

theorem first_occurrence_wins_witness:
  "(\<exists>st. loop True (''p=1'' @ [NL] @ ''a=1'') (init_locals Map.empty) = Next st
        \<and> mode st = parse_value \<and> c_str (param_name st) = ''a''
        \<and> c_str (take (value_fill st) (param_value st)) = ''1'' \<and> ret st = [''p'' \<mapsto> ''1''])
   \<and> parse_config True (Some ((''p=1'' @ [NL] @ ''a=1'') @ NL # ''a=2'' @ [NL])) (Some Map.empty)
      = (0, Some [''p'' \<mapsto> ''1'', ''a'' \<mapsto> ''1''])
   \<and> insert_pair ''a'' ''1'' [''p'' \<mapsto> ''1''] ''a'' = Some ''1''
   \<and> parse_config True (Some ((''a=1'' @ [NL]) @ (''a=2'' @ [NL]))) (Some Map.empty)
      = (0, Some [''a'' \<mapsto> ''1''])
   \<and> insert_pair ''a'' ''2'' [''a'' \<mapsto> ''1''] = [''a'' \<mapsto> ''1'']
   \<and> fst (parse_config True (Some (''a=2'' @ [NL])) (Some [''a'' \<mapsto> ''1'']))
      = fst (parse_config True (Some (''a=2'' @ [NL])) (Some Map.empty))"
proof -
  have e: "\<exists>st. loop True (''p=1'' @ [NL] @ ''a=1'') (init_locals Map.empty) = Next st
        \<and> mode st = parse_value \<and> c_str (param_name st) = ''a''
        \<and> c_str (take (value_fill st) (param_value st)) = ''1'' \<and> ret st = [''p'' \<mapsto> ''1'']"
    by (simp add: eval_defs)
  then obtain st where b1: "loop True (''p=1'' @ [NL] @ ''a=1'') (init_locals Map.empty) = Next st"
    and s: "mode st = parse_value" "c_str (param_name st) = ''a''"
      "c_str (take (value_fill st) (param_value st)) = ''1''" "ret st = [''p'' \<mapsto> ''1'']"
    by blast
  have b2: "(mode st = parse_skip_space_after_equal \<and> NL = CHR ''#'')
       \<or> (mode st = parse_value \<and> (isspace NL \<or> NL = CHR ''#''))
       \<or> (mode st = parse_value_in_single_quote \<and> NL = SQUOTE)
       \<or> (mode st = parse_value_in_double_quote \<and> NL = DQUOTE)"
    using s(1) by (simp add: fixed_chars)
  have b3: "ret st (c_str (param_name st)) = None" using s by simp
  have b4: "parse_config True (Some ((''p=1'' @ [NL] @ ''a=1'') @ NL # ''a=2'' @ [NL])) (Some Map.empty)
      = (0, Some [''p'' \<mapsto> ''1'', ''a'' \<mapsto> ''1''])"
    by (simp add: eval_defs)
  have 1: "parse_config True (Some (''a=1'' @ [NL])) (Some Map.empty) = (0, Some [''a'' \<mapsto> ''1''])"
    by (simp add: eval_defs)
  have 2: "[''a'' \<mapsto> ''1''] ''a'' = Some ''1''" by simp
  have 3: "parse_config True (Some ((''a=1'' @ [NL]) @ (''a=2'' @ [NL]))) (Some Map.empty)
      = (0, Some [''a'' \<mapsto> ''1''])"
    by (simp add: eval_defs)
  have w: "[''p'' \<mapsto> ''1'', ''a'' \<mapsto> ''1''] (c_str (param_name st))
           = Some (if mode st = parse_skip_space_after_equal then []
                   else c_str (take (value_fill st) (param_value st)))
       \<and> insert_pair ''a'' ''1'' (ret st) ''a'' = Some (case ret st ''a'' of None \<Rightarrow> ''1'' | Some old \<Rightarrow> old)
       \<and> [''a'' \<mapsto> ''1''] ''a'' = Some ''1''
       \<and> insert_pair ''a'' ''2'' [''a'' \<mapsto> ''1''] = [''a'' \<mapsto> ''1'']
       \<and> fst (parse_config True (Some (''a=2'' @ [NL])) (Some [''a'' \<mapsto> ''1'']))
        = fst (parse_config True (Some (''a=2'' @ [NL])) (Some Map.empty))"
    by (rule first_occurrence_wins[OF b1 b2 b3 b4 1 2 3])
  have i: "insert_pair ''a'' ''1'' [''p'' \<mapsto> ''1''] ''a'' = Some ''1''"
    using w s(4) by simp
  show ?thesis using e b4 i 3 w by blast
qed

text \<open>
  C4 (as stated: an empty value is accepted when \<^verbatim>\<open>=\<close> is followed at once by
  \<^verbatim>\<open>#\<close> or by the end of the line). After \<^verbatim>\<open>a=\<close> and a newline nothing is committed;
  the newline is skipped as white space and the value is taken from the next line.
\<close>

theorem empty_value_before_newline_counterexample:
  "parse_config True (Some (''a='' @ [NL])) (Some Map.empty) = (0, Some Map.empty)
   \<and> parse_config True (Some (''a='' @ [NL] @ ''b=1'' @ [NL])) (Some Map.empty)
       = (0, Some [''a'' \<mapsto> ''b=1''])"
  by (simp add: eval_defs)

text \<open>
  C4, amended. An empty value is committed when \<^verbatim>\<open>#\<close> is the first character after
  \<^verbatim>\<open>=\<close> that is not white space: for a name (of at most 29 characters), \<^verbatim>\<open>=\<close>,
  white space or none, and a bare \<^verbatim>\<open>#\<close>, the parse succeeds and the map has the name
  with the empty string. An end of line after \<^verbatim>\<open>=\<close> is white space like any other:
  for a name, \<^verbatim>\<open>=\<close> and white space up to the end of the text the parse succeeds and
  commits nothing.
\<close>

theorem empty_value_before_hash:
  assumes "valid_name nm" and "length nm \<le> 29" and "list_all isspace ws"
  shows "parse_config sg (Some (nm @ ''='' @ ws @ ''#'')) (Some Map.empty) = (0, Some [nm \<mapsto> ''''])
       \<and> parse_config sg (Some (nm @ ''='' @ ws)) (Some Map.empty) = (0, Some Map.empty)"
proof -
  have lk: "length nm \<le> CONF_PARAM_NAME_MAX_LEN - 1"
    using assms(2) by (simp add: CONF_PARAM_NAME_MAX_LEN_def)
  obtain st1 where 1: "loop sg (nm @ [CHR ''='']) (init_locals Map.empty) = Next st1"
    and m1: "mode st1 = parse_skip_space_after_equal" and n1: "c_str (param_name st1) = nm"
    and b1: "bufs_ok st1" and r1: "ret st1 = Map.empty"
    using loop_name_equal[OF _ _ assms(1) lk, of "init_locals Map.empty" sg] by auto
  let ?st2 = "shift_line (newlines ws) st1"
  have 2: "loop sg ws st1 = Next ?st2"
    by (rule loop_after_equal_spaces[OF m1 assms(3)])
  have 12: "loop sg ((nm @ [CHR ''='']) @ ws) (init_locals Map.empty) = Next ?st2"
    unfolding loop_append_Next[OF 1] by (rule 2)
  obtain st3 where 3: "loop sg [CHR ''#''] ?st2 = Next st3"
    and r3: "ret st3 = insert_pair (c_str (param_name ?st2)) [] (ret ?st2)"
    using loop_value_hash[of ?st2 sg] m1 b1 by auto
  have "loop sg (((nm @ [CHR ''='']) @ ws) @ [CHR ''#'']) (init_locals Map.empty) = Next st3"
    unfolding loop_append_Next[OF 12] by (rule 3)
  then have a: "parse_config sg (Some (nm @ ''='' @ ws @ ''#'')) (Some Map.empty) = (0, Some (ret st3))"
    by (simp add: parse_config_Next)
  have b: "parse_config sg (Some (nm @ ''='' @ ws)) (Some Map.empty) = (0, Some (ret ?st2))"
    using 12 by (simp add: parse_config_Next)
  show ?thesis
    using a b r3 n1 r1 by (simp add: insert_pair_def)
qed

theorem empty_value_before_hash_witness:
  "(parse_config True (Some (''debug'' @ ''='' @ [] @ ''#'')) (Some Map.empty) = (0, Some [''debug'' \<mapsto> ''''])
    \<and> parse_config True (Some (''debug'' @ ''='' @ [])) (Some Map.empty) = (0, Some Map.empty))
   \<and> (parse_config True (Some (''debug'' @ ''='' @ [NL] @ ''#'')) (Some Map.empty) = (0, Some [''debug'' \<mapsto> ''''])
    \<and> parse_config True (Some (''debug'' @ ''='' @ [NL])) (Some Map.empty) = (0, Some Map.empty))"
proof -
  have n: "valid_name ''debug''" "length ''debug'' \<le> 29"
    by (simp_all add: isalpha_def name_char_def)
  have w: "list_all isspace []" "list_all isspace [NL]"
    by (simp_all add: isspace_def)
  show ?thesis
    by (rule conjI[OF empty_value_before_hash[OF n w(1)] empty_value_before_hash[OF n w(2)]])
qed

text \<open>
  C5 (as stated, with the maximum 29 for names: a name of 29 characters fails with
  \<^verbatim>\<open>WRONG_PARAM\<close>). A name of 29 characters is accepted.
\<close>

theorem name_of_29_characters_counterexample:
  "parse_config True (Some (''abcdefghijklmnopqrstuvwxyzABC'' @ ''=v'' @ [NL])) (Some Map.empty)
     = (0, Some [''abcdefghijklmnopqrstuvwxyzABC'' \<mapsto> ''v''])"
proof -
  have "parse_config True (Some (''abcdefghijklmnopqrstuvwxyzABC'' @ CHR ''='' # ''v'' @ [NL])) (Some Map.empty)
     = (0, Some (insert_pair ''abcdefghijklmnopqrstuvwxyzABC'' (c_str ''v'') Map.empty))"
    by (rule parse_assign_unquoted)
       (simp_all add: isalpha_def name_char_def isdigit_def isspace_def value_start_def EOF_iff
          CONF_PARAM_NAME_MAX_LEN_def CONF_PARAM_VALUE_MAX_LEN_def)
  then show ?thesis by (simp add: insert_pair_def c_str_def)
qed

text \<open>
  C5, amended. The two maxima are 29 and 254, one less than the sizes 30 and 255 of the
  arrays. The statement is for values without a byte that compares equal to \<open>EOF\<close>
  (the byte 255 where \<^verbatim>\<open>char\<close> is signed; what the scanner does at that byte is the
  subject of C7 to C10 and is left out here). A name of up to 29 characters is accepted
  with a value of up to 254 characters, and the value is stored up to its first
  \<^verbatim>\<open>NUL\<close>, if it has one; this holds for an unquoted value (not empty, without white
  space and \<^verbatim>\<open>#\<close>, not starting with a quote, followed by a newline) and for a value
  in single or in double quotes (without that quote). A name of 30 or more characters
  fails with \<^verbatim>\<open>WRONG_PARAM\<close>, and a value of 255 or more characters, unquoted or
  quoted, fails with \<^verbatim>\<open>WRONG_VALUE\<close>, whatever follows; the map is then empty.
\<close>

theorem length_boundaries:
  assumes "valid_name nm"
    and "v \<noteq> []" and "hd v \<noteq> SQUOTE" and "hd v \<noteq> DQUOTE"
    and "\<forall>c\<in>set v. \<not> isspace c \<and> c \<noteq> CHR ''#'' \<and> char_to_int sg c \<noteq> EOF"
    and "q = SQUOTE \<or> q = DQUOTE"
    and "\<forall>c\<in>set w. c \<noteq> q \<and> char_to_int sg c \<noteq> EOF"
  shows "(length nm \<le> 29 \<and> length v \<le> 254 \<longrightarrow>
            parse_config sg (Some (nm @ ''='' @ v @ [NL])) (Some Map.empty) = (0, Some [nm \<mapsto> c_str v]))
       \<and> (30 \<le> length nm \<longrightarrow>
            parse_config sg (Some (nm @ rest)) (Some m) = (CONFERR_WRONGPARAM, Some Map.empty))
       \<and> (length nm \<le> 29 \<and> 255 \<le> length v \<longrightarrow>
            parse_config sg (Some (nm @ ''='' @ v @ rest)) (Some m) = (CONFERR_WRONGVALUE, Some Map.empty))
       \<and> (length nm \<le> 29 \<and> length w \<le> 254 \<longrightarrow>
            parse_config sg (Some (nm @ ''='' @ [q] @ w @ [q])) (Some Map.empty) = (0, Some [nm \<mapsto> c_str w]))
       \<and> (length nm \<le> 29 \<and> 255 \<le> length w \<longrightarrow>
            parse_config sg (Some (nm @ ''='' @ [q] @ w @ rest)) (Some m) = (CONFERR_WRONGVALUE, Some Map.empty))"
proof -
  obtain c cs where v: "v = c # cs" using assms(2) by (cases v) simp_all
  have "value_start sg c" "\<forall>x\<in>set cs. accum_char sg parse_value x"
    using assms(3,4,5) unfolding v by (simp_all add: value_start_def accum_char_def)
  then have uv: "unquoted_value sg v"
    unfolding v by (simp add: list_all_iff)
  define md where "md = (if q = SQUOTE then parse_value_in_single_quote else parse_value_in_double_quote)"
  have md: "(md = parse_value_in_single_quote \<and> q = SQUOTE)
      \<or> (md = parse_value_in_double_quote \<and> q = DQUOTE)"
    using assms(6) by (auto simp: md_def)
  have aw: "list_all (accum_char sg md) w"
  proof (cases "q = SQUOTE")
    case True
    then have "md = parse_value_in_single_quote" by (simp add: md_def)
    then show ?thesis using assms(7) True by (simp add: list_all_iff accum_char_def)
  next
    case False
    then have "q = DQUOTE" and "md = parse_value_in_double_quote"
      using assms(6) by (simp_all add: md_def)
    then show ?thesis using assms(7) by (simp add: list_all_iff accum_char_def)
  qed
  have lk: "length nm \<le> CONF_PARAM_NAME_MAX_LEN - 1" if "length nm \<le> 29"
    using that by (simp add: CONF_PARAM_NAME_MAX_LEN_def)
  have lo: "CONF_PARAM_NAME_MAX_LEN \<le> length nm" if "30 \<le> length nm"
    using that by (simp add: CONF_PARAM_NAME_MAX_LEN_def)
  have lv: "length x \<le> CONF_PARAM_VALUE_MAX_LEN - 1" if "length x \<le> 254" for x :: string
    using that by (simp add: CONF_PARAM_VALUE_MAX_LEN_def)
  have vo: "CONF_PARAM_VALUE_MAX_LEN \<le> length x" if "255 \<le> length x" for x :: string
    using that by (simp add: CONF_PARAM_VALUE_MAX_LEN_def)
  have t: "isspace NL \<or> NL = CHR ''#''" by (simp add: fixed_chars)
  have e: "insert_pair nm x Map.empty = [nm \<mapsto> x]" for x
    by (simp add: insert_pair_def)
  have 1: "parse_config sg (Some (nm @ ''='' @ v @ [NL])) (Some Map.empty) = (0, Some [nm \<mapsto> c_str v])"
    if "length nm \<le> 29 \<and> length v \<le> 254"
    using parse_assign_unquoted[OF assms(1) lk uv lv t, of Map.empty] that by (simp add: e)
  have 2: "parse_config sg (Some (nm @ rest)) (Some m) = (CONFERR_WRONGPARAM, Some Map.empty)"
    if "30 \<le> length nm"
    using parse_name_overflow[OF assms(1) lo, of sg rest m] that by simp
  have 3: "parse_config sg (Some (nm @ ''='' @ v @ rest)) (Some m) = (CONFERR_WRONGVALUE, Some Map.empty)"
    if "length nm \<le> 29 \<and> 255 \<le> length v"
    using parse_value_overflow[OF assms(1) lk uv vo, of rest m] that by simp
  have 4: "parse_config sg (Some (nm @ ''='' @ [q] @ w @ [q])) (Some Map.empty) = (0, Some [nm \<mapsto> c_str w])"
    if "length nm \<le> 29 \<and> length w \<le> 254"
    using parse_assign_quoted[OF assms(1) lk md aw lv, of Map.empty] that by (simp add: e)
  have 5: "parse_config sg (Some (nm @ ''='' @ [q] @ w @ rest)) (Some m) = (CONFERR_WRONGVALUE, Some Map.empty)"
    if "length nm \<le> 29 \<and> 255 \<le> length w"
    using parse_quoted_overflow[OF assms(1) lk md aw vo, of rest m] that by simp
  show ?thesis using 1 2 3 4 5 by blast
qed

theorem length_boundaries_witness:
  "(parse_config True (Some (''abcdefghijklmnopqrstuvwxyzABC'' @ ''='' @ replicate 254 (CHR ''x'') @ [NL]))
       (Some Map.empty)
     = (0, Some [''abcdefghijklmnopqrstuvwxyzABC'' \<mapsto> replicate 254 (CHR ''x'')])
   \<and> parse_config True (Some (''abcdefghijklmnopqrstuvwxyzABCD'' @ ''=v'' @ [NL])) (Some Map.empty)
     = (CONFERR_WRONGPARAM, Some Map.empty)
   \<and> parse_config True (Some (''abcdefghijklmnopqrstuvwxyzABC'' @ ''='' @ replicate 255 (CHR ''x'') @ [NL]))
       (Some Map.empty)
     = (CONFERR_WRONGVALUE, Some Map.empty))
   \<and> (parse_config True
        (Some (''abcdefghijklmnopqrstuvwxyzABC'' @ ''='' @ [SQUOTE] @ replicate 254 (CHR ''y'') @ [SQUOTE]))
        (Some Map.empty)
     = (0, Some [''abcdefghijklmnopqrstuvwxyzABC'' \<mapsto> replicate 254 (CHR ''y'')])
   \<and> parse_config True
        (Some (''abcdefghijklmnopqrstuvwxyzABC'' @ ''='' @ [SQUOTE] @ replicate 255 (CHR ''y'') @ [SQUOTE, NL]))
        (Some Map.empty)
     = (CONFERR_WRONGVALUE, Some Map.empty))
   \<and> (parse_config True
        (Some (''abcdefghijklmnopqrstuvwxyzABC'' @ ''='' @ [DQUOTE] @ replicate 254 (CHR ''y'') @ [DQUOTE]))
        (Some Map.empty)
     = (0, Some [''abcdefghijklmnopqrstuvwxyzABC'' \<mapsto> replicate 254 (CHR ''y'')])
   \<and> parse_config True
        (Some (''abcdefghijklmnopqrstuvwxyzABC'' @ ''='' @ [DQUOTE] @ replicate 255 (CHR ''y'') @ [DQUOTE, NL]))
        (Some Map.empty)
     = (CONFERR_WRONGVALUE, Some Map.empty))"
proof -
  let ?n29 = "''abcdefghijklmnopqrstuvwxyzABC''"
  let ?n30 = "''abcdefghijklmnopqrstuvwxyzABCD''"
  let ?x = "CHR ''x''"
  let ?b = "CHR ''y''"
  have n29: "valid_name ?n29" "length ?n29 = 29" and n30: "valid_name ?n30" "length ?n30 = 30"
    by (simp_all add: isalpha_def name_char_def)
  have x: "\<not> isspace ?x" "char_to_int True ?x \<noteq> EOF" "char_to_int True ?b \<noteq> EOF"
    by (simp_all add: isspace_def EOF_iff)
  have v: "replicate n ?x \<noteq> []" "hd (replicate n ?x) \<noteq> SQUOTE" "hd (replicate n ?x) \<noteq> DQUOTE"
      "\<forall>c\<in>set (replicate n ?x). \<not> isspace c \<and> c \<noteq> CHR ''#'' \<and> char_to_int True c \<noteq> EOF"
    if "0 < n" for n
    using that x by simp_all
  have w: "\<forall>c\<in>set (replicate n ?b). c \<noteq> SQUOTE \<and> char_to_int True c \<noteq> EOF"
      "\<forall>c\<in>set (replicate n ?b). c \<noteq> DQUOTE \<and> char_to_int True c \<noteq> EOF" for n
    using x by simp_all
  have c: "c_str (replicate 254 ?x) = replicate 254 ?x" "c_str (replicate 254 ?b) = replicate 254 ?b"
    by (rule c_str_id, simp)+
  have p254: "0 < (254::nat)" and p255: "0 < (255::nat)" by simp_all
  have u: "parse_config True (Some (?n29 @ ''='' @ replicate 254 ?x @ [NL])) (Some Map.empty)
       = (0, Some [?n29 \<mapsto> replicate 254 ?x])"
    using length_boundaries[OF n29(1) v[OF p254] _ w(1)[of 0], where rest = "[]" and m = Map.empty] n29(2) c
    by simp
  have o: "parse_config True (Some (?n30 @ ''=v'' @ [NL])) (Some Map.empty) = (CONFERR_WRONGPARAM, Some Map.empty)"
    using length_boundaries[OF n30(1) v[OF p254] _ w(1)[of 0], where rest = "''=v'' @ [NL]" and m = Map.empty] n30(2)
    by simp
  have uo: "parse_config True (Some (?n29 @ ''='' @ replicate 255 ?x @ [NL])) (Some Map.empty)
       = (CONFERR_WRONGVALUE, Some Map.empty)"
    using length_boundaries[OF n29(1) v[OF p255] _ w(1)[of 0], where rest = "[NL]" and m = Map.empty] n29(2)
    by simp
  have s: "parse_config True (Some (?n29 @ ''='' @ [SQUOTE] @ replicate 254 ?b @ [SQUOTE])) (Some Map.empty)
       = (0, Some [?n29 \<mapsto> replicate 254 ?b])"
    using length_boundaries[OF n29(1) v[OF p254] _ w(1)[of 254], where rest = "[]" and m = Map.empty] n29(2) c
    by simp
  have so: "parse_config True (Some (?n29 @ ''='' @ [SQUOTE] @ replicate 255 ?b @ [SQUOTE, NL])) (Some Map.empty)
       = (CONFERR_WRONGVALUE, Some Map.empty)"
    using length_boundaries[OF n29(1) v[OF p254] _ w(1)[of 255], where rest = "[SQUOTE, NL]" and m = Map.empty] n29(2)
    by simp
  have d: "parse_config True (Some (?n29 @ ''='' @ [DQUOTE] @ replicate 254 ?b @ [DQUOTE])) (Some Map.empty)
       = (0, Some [?n29 \<mapsto> replicate 254 ?b])"
    using length_boundaries[OF n29(1) v[OF p254] _ w(2)[of 254], where rest = "[]" and m = Map.empty] n29(2) c
    by simp
  have dqo: "parse_config True (Some (?n29 @ ''='' @ [DQUOTE] @ replicate 255 ?b @ [DQUOTE, NL])) (Some Map.empty)
       = (CONFERR_WRONGVALUE, Some Map.empty)"
    using length_boundaries[OF n29(1) v[OF p254] _ w(2)[of 255], where rest = "[DQUOTE, NL]" and m = Map.empty] n29(2)
    by simp
  show ?thesis using u o uo s so d dqo by blast
qed

text \<open>
  C6 (as stated: for every value without white space, \<^verbatim>\<open>#\<close> and quotes, \<^verbatim>\<open>k=v\<close>,
  \<^verbatim>\<open>k='v'\<close> and \<^verbatim>\<open>k="v"\<close> give the same entry). For the empty value the quoted form
  commits \<open>k \<mapsto> ''''\<close> and the unquoted form commits nothing, with or without a newline
  after it; and an unquoted value that the stream ends in is not committed either.
\<close>

theorem empty_value_round_trip_counterexample:
  "parse_config True (Some ''k='') (Some Map.empty) = (0, Some Map.empty)
   \<and> parse_config True (Some (''k='' @ [NL])) (Some Map.empty) = (0, Some Map.empty)
   \<and> parse_config True (Some (''k='' @ [SQUOTE, SQUOTE])) (Some Map.empty) = (0, Some [''k'' \<mapsto> ''''])
   \<and> parse_config True (Some ''k=v'') (Some Map.empty) = (0, Some Map.empty)"
  by (simp add: eval_defs)

text \<open>
  C6, amended. For every name \<open>k\<close> of at most 29 characters and every value \<open>v\<close> that is
  not empty, has at most 254 characters and contains no white space, no \<^verbatim>\<open>#\<close>, no
  quote, no \<^verbatim>\<open>NUL\<close> and no byte that compares equal to \<open>EOF\<close>: the texts \<^verbatim>\<open>k=v\<close>
  followed by a white space character or \<^verbatim>\<open>#\<close>, \<^verbatim>\<open>k='v'\<close> and \<^verbatim>\<open>k="v"\<close> each give
  the map with the one entry \<open>k \<mapsto> v\<close>.
\<close>

theorem quoting_round_trip:
  assumes "valid_name k" and "length k \<le> 29"
    and "v \<noteq> []" and "length v \<le> 254"
    and "\<forall>c\<in>set v. \<not> isspace c \<and> c \<noteq> CHR ''#'' \<and> c \<noteq> SQUOTE \<and> c \<noteq> DQUOTE \<and> c \<noteq> NUL
                    \<and> char_to_int sg c \<noteq> EOF"
    and "isspace t \<or> t = CHR ''#''"
  shows "parse_config sg (Some (k @ ''='' @ v @ [t])) (Some Map.empty) = (0, Some [k \<mapsto> v])
       \<and> parse_config sg (Some (k @ ''='' @ [SQUOTE] @ v @ [SQUOTE])) (Some Map.empty) = (0, Some [k \<mapsto> v])
       \<and> parse_config sg (Some (k @ ''='' @ [DQUOTE] @ v @ [DQUOTE])) (Some Map.empty) = (0, Some [k \<mapsto> v])"
proof -
  have lk: "length k \<le> CONF_PARAM_NAME_MAX_LEN - 1" and lv: "length v \<le> CONF_PARAM_VALUE_MAX_LEN - 1"
    using assms(2,4) by (simp_all add: CONF_PARAM_NAME_MAX_LEN_def CONF_PARAM_VALUE_MAX_LEN_def)
  have cv: "c_str v = v" using assms(5) by (intro c_str_id) auto
  have e: "insert_pair k v Map.empty = [k \<mapsto> v]" by (simp add: insert_pair_def)
  obtain c cs where v: "v = c # cs" using assms(3) by (cases v) simp_all
  have uv: "unquoted_value sg v"
    using assms(5) unfolding v by (auto simp: value_start_def accum_char_def list_all_iff)
  have sq: "list_all (accum_char sg parse_value_in_single_quote) v"
    and dq: "list_all (accum_char sg parse_value_in_double_quote) v"
    using assms(5) by (auto simp: accum_char_def list_all_iff)
  have 1: "parse_config sg (Some (k @ CHR ''='' # v @ [t])) (Some Map.empty)
      = (0, Some (insert_pair k (c_str v) Map.empty))"
    by (rule parse_assign_unquoted[OF assms(1) lk uv lv assms(6)])
  have 2: "parse_config sg (Some (k @ CHR ''='' # SQUOTE # v @ [SQUOTE])) (Some Map.empty)
      = (0, Some (insert_pair k (c_str v) Map.empty))"
    by (rule parse_assign_quoted[OF assms(1) lk _ sq lv]) simp
  have 3: "parse_config sg (Some (k @ CHR ''='' # DQUOTE # v @ [DQUOTE])) (Some Map.empty)
      = (0, Some (insert_pair k (c_str v) Map.empty))"
    by (rule parse_assign_quoted[OF assms(1) lk _ dq lv]) simp
  show ?thesis using 1 2 3 by (simp add: cv e)
qed

theorem quoting_round_trip_witness:
  "parse_config True (Some (''host'' @ ''='' @ ''mysql.example.com'' @ [NL])) (Some Map.empty)
     = (0, Some [''host'' \<mapsto> ''mysql.example.com''])
   \<and> parse_config True (Some (''host'' @ ''='' @ [SQUOTE] @ ''mysql.example.com'' @ [SQUOTE])) (Some Map.empty)
     = (0, Some [''host'' \<mapsto> ''mysql.example.com''])
   \<and> parse_config True (Some (''host'' @ ''='' @ [DQUOTE] @ ''mysql.example.com'' @ [DQUOTE])) (Some Map.empty)
     = (0, Some [''host'' \<mapsto> ''mysql.example.com''])"
  using quoting_round_trip[of "''host''" "''mysql.example.com''" True NL]
  by (simp add: isalpha_def name_char_def isspace_def EOF_iff)

text \<open>
  C7. The claim: in the line end state every character other than white space and
  \<^verbatim>\<open>#\<close> aborts the parse with \<^verbatim>\<open>WRONG_SYNTAX\<close>. The code breaks it at one byte:
  where \<^verbatim>\<open>char\<close> is signed, the byte 255 after \<^verbatim>\<open>a=1\<close> and a blank compares equal to
  \<open>EOF\<close>, the test \<^verbatim>\<open>c == EOF\<close> at the head of the loop takes it for the end of the file,
  and the function returns 0 with the map as it is. Where \<^verbatim>\<open>char\<close> is unsigned the
  same file gives \<^verbatim>\<open>WRONG_SYNTAX\<close> and the empty map.
\<close>

theorem byte_255_in_line_end:
  "parse_config True (Some (''a=1 '' @ [CHR 0xFF])) (Some Map.empty) = (0, Some [''a'' \<mapsto> ''1''])
   \<and> parse_config False (Some (''a=1 '' @ [CHR 0xFF])) (Some Map.empty)
       = (CONFERR_WRONGSYNTAX, Some Map.empty)"
  by (simp add: eval_defs)

text \<open>
  Apart from that byte the line end state does what the claim says. After an unquoted
  value has been closed by a space and the scanner is in the mode \<^verbatim>\<open>parse_line_end\<close>,
  any character other than white space, \<^verbatim>\<open>#\<close> and a byte that compares equal to
  \<open>EOF\<close> aborts the parse with \<^verbatim>\<open>WRONG_SYNTAX\<close> at that character: whatever follows
  it, that code is returned and the map is empty. Where \<^verbatim>\<open>char\<close> is unsigned no byte
  compares equal to \<open>EOF\<close>, and this is the claim as it stands.
\<close>

theorem garbage_after_value_is_syntax_error:
  assumes "loop sg pre (init_locals m) = Next st" and "mode st = parse_line_end"
    and "\<not> isspace c" and "c \<noteq> CHR ''#''" and "char_to_int sg c \<noteq> EOF"
  shows "parse_config sg (Some (pre @ c # post)) (Some m) = (CONFERR_WRONGSYNTAX, Some Map.empty)"
  using loop_append_Return[OF assms(1) step_line_end_other[OF assms(2-5)], of post]
  by (simp add: parse_config_Return)

theorem garbage_after_value_is_syntax_error_witness:
  "(\<exists>st. loop True ''password = helloworld '' (init_locals Map.empty) = Next st
         \<and> mode st = parse_line_end)
   \<and> parse_config True (Some (''password = helloworld '' @ CHR ''t'' # ''est comment'')) (Some Map.empty)
       = (CONFERR_WRONGSYNTAX, Some Map.empty)"
proof -
  have "\<exists>st. loop True ''password = helloworld '' (init_locals Map.empty) = Next st
         \<and> mode st = parse_line_end"
    by (simp add: eval_defs)
  then obtain st where 1: "loop True ''password = helloworld '' (init_locals Map.empty) = Next st"
    and 2: "mode st = parse_line_end" by blast
  have c: "\<not> isspace (CHR ''t'')" "CHR ''t'' \<noteq> CHR ''#''" "char_to_int True (CHR ''t'') \<noteq> EOF"
    by (simp_all add: isspace_def EOF_iff)
  show ?thesis
    using garbage_after_value_is_syntax_error[OF 1 2 c] 1 2 by blast
qed

theorem garbage_after_value_unsigned:
  assumes "loop False pre (init_locals m) = Next st" and "mode st = parse_line_end"
    and "\<not> isspace c" and "c \<noteq> CHR ''#''"
  shows "parse_config False (Some (pre @ c # post)) (Some m) = (CONFERR_WRONGSYNTAX, Some Map.empty)"
  by (rule garbage_after_value_is_syntax_error[OF assms]) (simp add: EOF_iff)

text \<open>
  C8. The claim: in the mode before \<^verbatim>\<open>=\<close> every character other than \<^verbatim>\<open>=\<close> is
  passed over, and the name gets the value after the next \<^verbatim>\<open>=\<close>. The code breaks it
  at one byte: where \<^verbatim>\<open>char\<close> is signed, the byte 255 between the name and \<^verbatim>\<open>=\<close>
  compares equal to \<open>EOF\<close>, the test \<^verbatim>\<open>c == EOF\<close> at the head of the loop takes it for
  the end of the file, and the function returns 0 with no value for the name. Where
  \<^verbatim>\<open>char\<close> is unsigned the same file binds the name.
\<close>

theorem byte_255_before_equal:
  "parse_config True (Some (''a '' @ [CHR 0xFF] @ ''=1'' @ [NL])) (Some Map.empty)
     = (0, Some Map.empty)
   \<and> parse_config False (Some (''a '' @ [CHR 0xFF] @ ''=1'' @ [NL])) (Some Map.empty)
     = (0, Some [''a'' \<mapsto> ''1''])"
  by (simp add: eval_defs)

text \<open>
  Apart from that byte the mode does what the claim says. In the mode
  \<^verbatim>\<open>parse_skip_space_before_equal\<close> every character other than \<^verbatim>\<open>=\<close> and other than
  a byte that compares equal to \<open>EOF\<close> is consumed without error and changes nothing
  but the line counter. So a text without \<^verbatim>\<open>=\<close> and without such a byte between a
  name and the next \<^verbatim>\<open>=\<close> is discarded: the result is that of the same file without
  it, and the name is bound to the value after that \<^verbatim>\<open>=\<close>. Where \<^verbatim>\<open>char\<close> is unsigned
  no byte compares equal to \<open>EOF\<close>, and this is the claim as it stands.
\<close>

theorem text_before_equal_is_skipped:
  assumes "loop sg pre (init_locals m) = Next st" and "mode st = parse_skip_space_before_equal"
    and "CHR ''='' \<notin> set junk" and "\<forall>c\<in>set junk. char_to_int sg c \<noteq> EOF"
  shows "loop sg (pre @ junk) (init_locals m) = Next (st\<lparr> line := line st + newlines junk \<rparr>)
       \<and> parse_config sg (Some (pre @ junk @ CHR ''='' # rest)) (Some m)
         = parse_config sg (Some (pre @ CHR ''='' # rest)) (Some m)"
proof -
  have j: "loop sg junk st = Next (shift_line (newlines junk) st)"
    by (rule loop_before_equal[OF assms(2,3,4)])
  have 1: "loop sg (pre @ junk) (init_locals m) = Next (shift_line (newlines junk) st)"
    unfolding loop_append_Next[OF assms(1)] by (rule j)
  have a: "loop sg (pre @ junk @ CHR ''='' # rest) (init_locals m)
      = loop sg (CHR ''='' # rest) (shift_line (newlines junk) st)"
    using loop_append_Next[OF 1, of "CHR ''='' # rest"] by simp
  have b: "loop sg (pre @ CHR ''='' # rest) (init_locals m) = loop sg (CHR ''='' # rest) st"
    by (rule loop_append_Next[OF assms(1)])
  show ?thesis
    using 1 parse_config_shift[OF a b] by (simp add: shift_line_def)
qed

theorem text_before_equal_is_skipped_witness:
  "(\<exists>st. loop True ''user '' (init_locals Map.empty) = Next st
       \<and> mode st = parse_skip_space_before_equal
       \<and> loop True (''user '' @ ''some text '') (init_locals Map.empty)
           = Next (st\<lparr> line := line st + newlines ''some text '' \<rparr>))
   \<and> parse_config True (Some (''user '' @ ''some text '' @ CHR ''='' # '' dba_admin'' @ [NL])) (Some Map.empty)
       = (0, Some [''user'' \<mapsto> ''dba_admin''])"
proof -
  have "\<exists>st. loop True ''user '' (init_locals Map.empty) = Next st
         \<and> mode st = parse_skip_space_before_equal"
    by (simp add: eval_defs)
  then obtain st where 1: "loop True ''user '' (init_locals Map.empty) = Next st"
    and 2: "mode st = parse_skip_space_before_equal" by blast
  have 3: "CHR ''='' \<notin> set ''some text ''" "\<forall>c\<in>set ''some text ''. char_to_int True c \<noteq> EOF"
    by (simp_all add: EOF_iff)
  have 4: "parse_config True (Some (''user '' @ CHR ''='' # '' dba_admin'' @ [NL])) (Some Map.empty)
       = (0, Some [''user'' \<mapsto> ''dba_admin''])"
    by (simp add: eval_defs)
  show ?thesis
    using text_before_equal_is_skipped[OF 1 2 3, of "'' dba_admin'' @ [NL]"] 1 2 4 by auto
qed

theorem text_before_equal_unsigned:
  assumes "loop False pre (init_locals m) = Next st" and "mode st = parse_skip_space_before_equal"
    and "CHR ''='' \<notin> set junk"
  shows "loop False (pre @ junk) (init_locals m) = Next (st\<lparr> line := line st + newlines junk \<rparr>)
       \<and> parse_config False (Some (pre @ junk @ CHR ''='' # rest)) (Some m)
         = parse_config False (Some (pre @ CHR ''='' # rest)) (Some m)"
  by (rule text_before_equal_is_skipped[OF assms]) (simp add: EOF_iff)

text \<open>
  C9. The claim: the closing quote takes the scanner back to the first mode, so the
  line \<^verbatim>\<open>a='x' b='y'\<close> gives both pairs, and a character after a quoted value that is
  no letter, no white space and no \<^verbatim>\<open>#\<close> fails with \<^verbatim>\<open>WRONG_PARAM\<close>. The code
  breaks the last part at one byte: where \<^verbatim>\<open>char\<close> is signed, the byte 255 after the
  closing quote compares equal to \<open>EOF\<close>, the test \<^verbatim>\<open>c == EOF\<close> at the head of the loop
  takes it for the end of the file, and the function returns 0 with the map as it is.
  Where \<^verbatim>\<open>char\<close> is unsigned the same file gives \<^verbatim>\<open>WRONG_PARAM\<close> and the empty map.
\<close>

theorem byte_255_after_closing_quote:
  "parse_config True (Some (''a='' @ [SQUOTE] @ ''x'' @ [SQUOTE] @ [CHR 0xFF])) (Some Map.empty)
     = (0, Some [''a'' \<mapsto> ''x''])
   \<and> parse_config False (Some (''a='' @ [SQUOTE] @ ''x'' @ [SQUOTE] @ [CHR 0xFF])) (Some Map.empty)
     = (CONFERR_WRONGPARAM, Some Map.empty)"
  by (simp add: eval_defs)

text \<open>
  Apart from that byte the scanner does what the claim says. The closing delimiter of
  a quoted value takes it back to the mode \<^verbatim>\<open>parse_skip_space\<close>, so more text on the
  same line starts a new parameter: the single line \<^verbatim>\<open>a='x' b='y'\<close> gives both pairs,
  and a character after the closing quote that is no letter, no white space, no
  \<^verbatim>\<open>#\<close> and no byte comparing equal to \<open>EOF\<close> fails with \<^verbatim>\<open>WRONG_PARAM\<close>, not with
  \<^verbatim>\<open>WRONG_SYNTAX\<close>. Where \<^verbatim>\<open>char\<close> is unsigned no byte compares equal to \<open>EOF\<close>,
  and this is the claim as it stands.
\<close>

theorem after_closing_quote:
  assumes "loop sg pre (init_locals m) = Next st"
    and "(mode st = parse_value_in_single_quote \<and> q = SQUOTE)
         \<or> (mode st = parse_value_in_double_quote \<and> q = DQUOTE)"
    and "\<not> isalpha c" and "\<not> isspace c" and "c \<noteq> CHR ''#''" and "char_to_int sg c \<noteq> EOF"
  shows "(\<exists>st'. loop sg (pre @ [q]) (init_locals m) = Next st' \<and> mode st' = parse_skip_space)
       \<and> parse_config sg (Some (pre @ q # c # post)) (Some m) = (CONFERR_WRONGPARAM, Some Map.empty)
       \<and> parse_config sg (Some (''a='' @ [SQUOTE] @ ''x'' @ [SQUOTE] @ '' b='' @ [SQUOTE] @ ''y'' @ [SQUOTE]))
            (Some Map.empty) = (0, Some [''a'' \<mapsto> ''x'', ''b'' \<mapsto> ''y''])"
proof -
  let ?st' = "(insert_ret (st\<lparr> param_value := (param_value st)[value_fill st := NUL],
                            value_fill := value_fill st + 1 \<rparr>)) \<lparr> mode := parse_skip_space \<rparr>"
  have 1: "step sg q st = Next ?st'"
    using assms(2) step_quote_end[of st sg] by auto
  have 2: "loop sg (pre @ [q]) (init_locals m) = Next ?st'"
    unfolding loop_snoc_Next[OF assms(1)] by (rule 1)
  have m': "mode ?st' = parse_skip_space" by simp
  have 3: "step sg c ?st' = Return CONFERR_WRONGPARAM (?st'\<lparr> ret := Map.empty \<rparr>)"
    by (rule step_skip_space_other[OF m' assms(3-6)])
  have "loop sg ((pre @ [q]) @ c # post) (init_locals m) = Return CONFERR_WRONGPARAM (?st'\<lparr> ret := Map.empty \<rparr>)"
    by (rule loop_append_Return[OF 2 3])
  then have 4: "parse_config sg (Some (pre @ q # c # post)) (Some m) = (CONFERR_WRONGPARAM, Some Map.empty)"
    by (simp add: parse_config_Return)
  have 5: "parse_config sg (Some (''a='' @ [SQUOTE] @ ''x'' @ [SQUOTE] @ '' b='' @ [SQUOTE] @ ''y'' @ [SQUOTE]))
            (Some Map.empty) = (0, Some [''a'' \<mapsto> ''x'', ''b'' \<mapsto> ''y''])"
    by (simp add: eval_defs)
  show ?thesis using 2 m' 4 5 by blast
qed

theorem after_closing_quote_witness:
  "(\<exists>st. loop True (''a='' @ [SQUOTE] @ ''x'') (init_locals Map.empty) = Next st
       \<and> mode st = parse_value_in_single_quote)
   \<and> (\<exists>st'. loop True ((''a='' @ [SQUOTE] @ ''x'') @ [SQUOTE]) (init_locals Map.empty) = Next st'
       \<and> mode st' = parse_skip_space)
   \<and> parse_config True (Some ((''a='' @ [SQUOTE] @ ''x'') @ SQUOTE # CHR ''-'' # ''b'')) (Some Map.empty)
       = (CONFERR_WRONGPARAM, Some Map.empty)
   \<and> parse_config True (Some (''a='' @ [SQUOTE] @ ''x'' @ [SQUOTE] @ '' b='' @ [SQUOTE] @ ''y'' @ [SQUOTE]))
            (Some Map.empty) = (0, Some [''a'' \<mapsto> ''x'', ''b'' \<mapsto> ''y''])"
proof -
  have e: "\<exists>st. loop True (''a='' @ [SQUOTE] @ ''x'') (init_locals Map.empty) = Next st
       \<and> mode st = parse_value_in_single_quote"
    by (simp add: eval_defs)
  then obtain st where 1: "loop True (''a='' @ [SQUOTE] @ ''x'') (init_locals Map.empty) = Next st"
    and 2: "mode st = parse_value_in_single_quote" by blast
  have q: "(mode st = parse_value_in_single_quote \<and> SQUOTE = SQUOTE)
         \<or> (mode st = parse_value_in_double_quote \<and> SQUOTE = DQUOTE)"
    using 2 by simp
  have c: "\<not> isalpha (CHR ''-'')" "\<not> isspace (CHR ''-'')" "CHR ''-'' \<noteq> CHR ''#''"
    "char_to_int True (CHR ''-'') \<noteq> EOF"
    by (simp_all add: isalpha_def isspace_def EOF_iff)
  show ?thesis
    by (rule conjI[OF e after_closing_quote[OF 1 q c]])
qed

theorem after_closing_quote_unsigned:
  assumes "loop False pre (init_locals m) = Next st"
    and "(mode st = parse_value_in_single_quote \<and> q = SQUOTE)
         \<or> (mode st = parse_value_in_double_quote \<and> q = DQUOTE)"
    and "\<not> isalpha c" and "\<not> isspace c" and "c \<noteq> CHR ''#''"
  shows "(\<exists>st'. loop False (pre @ [q]) (init_locals m) = Next st' \<and> mode st' = parse_skip_space)
       \<and> parse_config False (Some (pre @ q # c # post)) (Some m) = (CONFERR_WRONGPARAM, Some Map.empty)
       \<and> parse_config False (Some (''a='' @ [SQUOTE] @ ''x'' @ [SQUOTE] @ '' b='' @ [SQUOTE] @ ''y'' @ [SQUOTE]))
            (Some Map.empty) = (0, Some [''a'' \<mapsto> ''x'', ''b'' \<mapsto> ''y''])"
  by (rule after_closing_quote[OF assms]) (simp add: EOF_iff)

text \<open>
  C10. A byte that compares equal to \<open>EOF\<close> is the byte 255 where \<^verbatim>\<open>char\<close> is signed.
  When the scanner reads one (the text before it was scanned without error and without
  such a byte), it stops and \<^verbatim>\<open>parse_config\<close> returns 0, whatever follows the byte. In
  a quoted mode the name in \<^verbatim>\<open>param_name\<close> is first committed with the characters
  that \<^verbatim>\<open>param_value\<close> holds so far; in every other mode the map is left as it is.
\<close>

theorem byte_equal_to_EOF_stops_scan:
  assumes "loop sg pre (init_locals m) = Next st" and "char_to_int sg e = EOF"
  shows "sg \<and> e = CHR 0xFF
       \<and> parse_config sg (Some (pre @ e # post)) (Some m)
         = (0, Some (if mode st = parse_value_in_single_quote \<or> mode st = parse_value_in_double_quote
                     then insert_pair (c_str (param_name st))
                            (c_str (take (value_fill st) (param_value st))) (ret st)
                     else ret st))"
proof -
  let ?b = "if mode st = parse_value_in_single_quote \<or> mode st = parse_value_in_double_quote
      then insert_ret (st\<lparr> param_value := (param_value st)[value_fill st := NUL] \<rparr>) else st"
  have "step sg e st = Break ?b"
    using step_EOF[OF assms(2), of st] by simp
  then have "loop sg (pre @ e # post) (init_locals m) = Break ?b"
    by (rule loop_append_Break[OF assms(1)])
  then have 1: "parse_config sg (Some (pre @ e # post)) (Some m) = (0, Some (ret ?b))"
    by (rule parse_config_Break)
  have ib: "in_bounds st" by (rule reachable_bounds[OF assms(1)])
  have "c_str ((param_value st)[value_fill st := NUL]) = c_str (take (value_fill st) (param_value st))"
    if "mode st = parse_value_in_single_quote \<or> mode st = parse_value_in_double_quote"
    by (rule c_str_update_take) (use ib that in \<open>auto simp: in_bounds_def bufs_ok_def\<close>)
  then have 2: "ret ?b = (if mode st = parse_value_in_single_quote \<or> mode st = parse_value_in_double_quote
                     then insert_pair (c_str (param_name st))
                            (c_str (take (value_fill st) (param_value st))) (ret st)
                     else ret st)"
    by (simp add: insert_ret_def)
  show ?thesis
    using 1 2 assms(2) by (simp add: EOF_iff)
qed

theorem byte_equal_to_EOF_stops_scan_witness:
  "(\<exists>st. loop True (''key = '' @ [SQUOTE] @ ''abc'') (init_locals Map.empty) = Next st
       \<and> mode st = parse_value_in_single_quote
       \<and> c_str (param_name st) = ''key''
       \<and> c_str (take (value_fill st) (param_value st)) = ''abc'' \<and> ret st = Map.empty)
   \<and> parse_config True
       (Some ((''key = '' @ [SQUOTE] @ ''abc'') @ CHR 0xFF # ''def'' @ [SQUOTE, NL] @ ''other=1'' @ [NL]))
       (Some Map.empty)
     = (0, Some [''key'' \<mapsto> ''abc''])
   \<and> (\<exists>st. loop True (''a=1'' @ [NL] @ ''b=2'') (init_locals Map.empty) = Next st
       \<and> mode st = parse_value \<and> ret st = [''a'' \<mapsto> ''1''])
   \<and> parse_config True (Some ((''a=1'' @ [NL] @ ''b=2'') @ CHR 0xFF # [NL] @ ''c=3'' @ [NL])) (Some Map.empty)
     = (0, Some [''a'' \<mapsto> ''1''])"
proof -
  have e1: "\<exists>st. loop True (''key = '' @ [SQUOTE] @ ''abc'') (init_locals Map.empty) = Next st
       \<and> mode st = parse_value_in_single_quote
       \<and> c_str (param_name st) = ''key''
       \<and> c_str (take (value_fill st) (param_value st)) = ''abc'' \<and> ret st = Map.empty"
    by (simp add: eval_defs)
  have e2: "\<exists>st. loop True (''a=1'' @ [NL] @ ''b=2'') (init_locals Map.empty) = Next st
       \<and> mode st = parse_value \<and> ret st = [''a'' \<mapsto> ''1'']"
    by (simp add: eval_defs)
  obtain st1 where 1: "loop True (''key = '' @ [SQUOTE] @ ''abc'') (init_locals Map.empty) = Next st1"
    and s1: "mode st1 = parse_value_in_single_quote" "c_str (param_name st1) = ''key''"
      "c_str (take (value_fill st1) (param_value st1)) = ''abc''" "ret st1 = Map.empty"
    using e1 by blast
  obtain st2 where 2: "loop True (''a=1'' @ [NL] @ ''b=2'') (init_locals Map.empty) = Next st2"
    and s2: "mode st2 = parse_value" "ret st2 = [''a'' \<mapsto> ''1'']"
    using e2 by blast
  have f: "char_to_int True (CHR 0xFF) = EOF" by (simp add: EOF_iff)
  have r1: "parse_config True
       (Some ((''key = '' @ [SQUOTE] @ ''abc'') @ CHR 0xFF # ''def'' @ [SQUOTE, NL] @ ''other=1'' @ [NL]))
       (Some Map.empty) = (0, Some [''key'' \<mapsto> ''abc''])"
    using byte_equal_to_EOF_stops_scan[OF 1 f, of "''def'' @ [SQUOTE, NL] @ ''other=1'' @ [NL]"] s1
    by (simp add: insert_pair_def)
  have r2: "parse_config True (Some ((''a=1'' @ [NL] @ ''b=2'') @ CHR 0xFF # [NL] @ ''c=3'' @ [NL])) (Some Map.empty)
     = (0, Some [''a'' \<mapsto> ''1''])"
    using byte_equal_to_EOF_stops_scan[OF 2 f, of "[NL] @ ''c=3'' @ [NL]"] s2
    by simp
  show ?thesis using e1 r1 e2 r2 by blast
qed

section \<open>Further properties\<close>

text \<open>
  The example of the header's closing comment: the file that its \<^verbatim>\<open>main\<close> writes (a
  comment line and four assignments, each line ended by \<^verbatim>\<open>std::endl\<close>) is parsed with
  the code 0 into the four pairs that \<^verbatim>\<open>main\<close> then reads.
\<close>

theorem usage_example:
  "parse_config sg
     (Some (''# this is config file example'' @ [NL]
          @ ''host='' @ [DQUOTE] @ ''mysql.example.com'' @ [DQUOTE] @ '' # this is SQL host'' @ [NL]
          @ ''user      =       '' @ [SQUOTE] @ ''dba_admin'' @ [SQUOTE] @ [NL]
          @ ''password = helloworld # test comment'' @ [NL]
          @ ''database=testdb123'' @ [NL]))
     (Some Map.empty)
   = (0, Some [''host'' \<mapsto> ''mysql.example.com'', ''user'' \<mapsto> ''dba_admin'',
               ''password'' \<mapsto> ''helloworld'', ''database'' \<mapsto> ''testdb123''])"
  by (simp add: eval_defs)

text \<open>
  No write leaves the arrays. Before every iteration of the loop both arrays have
  their declared lengths 30 and 255; in the mode \<^verbatim>\<open>parse_param_name\<close>, the only one that
  writes \<^verbatim>\<open>param_name[name_fill]\<close>, \<open>name_fill\<close> is less than 30; in the three value
  modes, the only ones that write \<^verbatim>\<open>param_value[value_fill]\<close>, \<open>value_fill\<close> is less
  than 255. (The other writes are at index 0.)
\<close>

theorem scanner_stays_in_bounds:
  assumes "loop sg cs (init_locals m) = Next st"
  shows "length (param_name st) = 30 \<and> length (param_value st) = 255
       \<and> (mode st = parse_param_name \<longrightarrow> name_fill st < 30)
       \<and> (mode st = parse_value \<or> mode st = parse_value_in_single_quote
            \<or> mode st = parse_value_in_double_quote \<longrightarrow> value_fill st < 255)"
  using loop_in_bounds[OF init_in_bounds assms]
  by (simp add: in_bounds_def bufs_ok_def CONF_PARAM_NAME_MAX_LEN_def CONF_PARAM_VALUE_MAX_LEN_def)

theorem scanner_stays_in_bounds_witness:
  "\<exists>st. loop True ''abcdefghijklmnopqrstuvwxyzABC'' (init_locals Map.empty) = Next st
      \<and> mode st = parse_param_name \<and> name_fill st = 29
      \<and> length (param_name st) = 30 \<and> length (param_value st) = 255 \<and> name_fill st < 30"
proof -
  have "\<exists>st. loop True ''abcdefghijklmnopqrstuvwxyzABC'' (init_locals Map.empty) = Next st
      \<and> mode st = parse_param_name \<and> name_fill st = 29"
    by (simp add: eval_defs)
  then obtain st where 1: "loop True ''abcdefghijklmnopqrstuvwxyzABC'' (init_locals Map.empty) = Next st"
    and 2: "mode st = parse_param_name" "name_fill st = 29" by blast
  show ?thesis
    using scanner_stays_in_bounds[OF 1] 1 2 by auto
qed

text \<open>
  An unquoted value is committed by the character that ends it. When the stream
  ends right after the value (a last line without newline), nothing is committed for
  it: the function returns 0 and the map is as the caller gave it.
\<close>

theorem unquoted_value_at_end_of_stream:
  assumes "valid_name nm" and "length nm \<le> 29" and "unquoted_value sg v" and "length v \<le> 254"
  shows "parse_config sg (Some (nm @ ''='' @ v)) (Some m) = (0, Some m)"
proof -
  have lk: "length nm \<le> CONF_PARAM_NAME_MAX_LEN - 1"
    using assms(2) by (simp add: CONF_PARAM_NAME_MAX_LEN_def)
  obtain c cs where v: "v = c # cs" using assms(3) by (cases v) simp_all
  obtain st1 where 1: "loop sg (nm @ [CHR ''='']) (init_locals m) = Next st1"
    and m1: "mode st1 = parse_skip_space_after_equal" and b1: "bufs_ok st1" and r1: "ret st1 = m"
    using loop_name_equal[OF _ _ assms(1) lk, of "init_locals m" sg] by auto
  let ?st2 = "st1\<lparr> param_value := (c # cs) @ drop (length (c # cs)) (param_value st1),
               value_fill := length (c # cs), mode := parse_value \<rparr>"
  have 2: "loop sg (c # cs) st1 = Next ?st2"
    by (rule loop_value_chars[OF m1 b1])
       (use assms(3,4) v in \<open>simp_all add: CONF_PARAM_VALUE_MAX_LEN_def\<close>)
  have "loop sg ((nm @ [CHR ''='']) @ (c # cs)) (init_locals m) = Next ?st2"
    unfolding loop_append_Next[OF 1] by (rule 2)
  then show ?thesis using v r1 by (simp add: parse_config_Next)
qed

theorem unquoted_value_at_end_of_stream_witness:
  "parse_config True (Some (''database'' @ ''='' @ ''testdb123'')) (Some Map.empty) = (0, Some Map.empty)"
  using unquoted_value_at_end_of_stream[of "''database''" True "''testdb123''" Map.empty]
  by (simp add: isalpha_def name_char_def isdigit_def isspace_def value_start_def accum_char_def EOF_iff)

end
